theory Spec2Isabelle
  imports Complex_Main "HOL-Library.Extended_Nat" "HOL-Library.Multiset"
begin

section \<open>Python text primitives used by \<^verbatim>\<open>audio_processing_streamlit.py\<close>\<close>

text \<open>
  A Python \<^verbatim>\<open>str\<close> is modelled as a \<^typ>\<open>string\<close>; a character stands for the code
  point of the same number, so the model covers the names and transcript lines whose
  code points are below 256. On that range the regular-expression class \<^verbatim>\<open>\d\<close>
  (Unicode decimal digits) is exactly \<^verbatim>\<open>0\<close> to \<^verbatim>\<open>9\<close>.
\<close>

definition code :: "char \<Rightarrow> nat" where
  "code c = of_char c"

definition is_digit :: "char \<Rightarrow> bool" where
  "is_digit c = (48 \<le> code c \<and> code c \<le> 57)"

text \<open>
  \<^verbatim>\<open>\w\<close> on \<^verbatim>\<open>str\<close> patterns: the alphanumeric code points (letters, and every
  code point that is a decimal, a digit or numeric) and the underscore. Below 256 the
  non-ASCII ones are the Latin-1 letters, the superscripts 1, 2, 3 and the three
  vulgar fractions.
\<close>

definition is_word :: "char \<Rightarrow> bool" where
  "is_word c = (let n = code c in
     (48 \<le> n \<and> n \<le> 57) \<or> (65 \<le> n \<and> n \<le> 90) \<or> n = 95 \<or> (97 \<le> n \<and> n \<le> 122) \<or>
     n = 170 \<or> n = 178 \<or> n = 179 \<or> n = 181 \<or> n = 185 \<or> n = 186 \<or>
     (188 \<le> n \<and> n \<le> 190) \<or> (192 \<le> n \<and> n \<le> 214) \<or> (216 \<le> n \<and> n \<le> 246) \<or>
     (248 \<le> n \<and> n \<le> 255))"

text \<open>The characters \<^verbatim>\<open>str.strip()\<close> removes at both ends (Unicode white space).\<close>

definition is_space :: "char \<Rightarrow> bool" where
  "is_space c = (let n = code c in
     (9 \<le> n \<and> n \<le> 13) \<or> (28 \<le> n \<and> n \<le> 32) \<or> n = 133 \<or> n = 160)"

definition strip :: "string \<Rightarrow> string" where
  "strip s = rev (dropWhile is_space (rev (dropWhile is_space s)))"

text \<open>\<^verbatim>\<open>re.sub(r'[^\w]', '', s)\<close>: every character that is not a word character is deleted.\<close>

definition re_sub_nonword :: "string \<Rightarrow> string" where
  "re_sub_nonword s = filter is_word s"

text \<open>\<^verbatim>\<open>str(i)\<close> of a non-negative integer: its decimal digits, no leading zero.\<close>

definition digit_char :: "nat \<Rightarrow> char" where
  "digit_char d = ''0123456789'' ! d"

function str_nat :: "nat \<Rightarrow> string" where
  "str_nat n = (if n < 10 then [digit_char n] else str_nat (n div 10) @ [digit_char (n mod 10)])"
  by pat_completeness auto
termination
  by (relation "measure id") auto

declare str_nat.simps [simp del]

text \<open>\<^verbatim>\<open>int(s)\<close> of a string of decimal digits.\<close>

definition int_of_digits :: "string \<Rightarrow> nat" where
  "int_of_digits ds = foldl (\<lambda>acc c. 10 * acc + (code c - 48)) 0 ds"

text \<open>
  \<^verbatim>\<open>re.search(r"(\d+)", s)\<close>: the leftmost match of a greedy run of digits, that is
  the first maximal run of digits of \<open>s\<close>; \<open>None\<close> when \<open>s\<close> has no digit.
\<close>

definition re_search_digits :: "string \<Rightarrow> string option" where
  "re_search_digits s =
     (let r = dropWhile (\<lambda>c. \<not> is_digit c) s
      in if r = [] then None else Some (takeWhile is_digit r))"


section \<open>Named files and the numeric ordering\<close>

text \<open>The class \<^verbatim>\<open>InMemoryFile\<close>: a name and the bytes that \<^verbatim>\<open>read()\<close> returns.\<close>

type_synonym bytes = "nat list"

record in_memory_file =
  name :: string
  data :: bytes

text \<open>
  The local function \<^verbatim>\<open>key\<close>, written out twice in the source (in \<^verbatim>\<open>join_audio\<close> and
  in \<^verbatim>\<open>generate_anki_csv\<close>) with the same text. It returns an \<^verbatim>\<open>int\<close>, or the float
  \<^verbatim>\<open>inf\<close>, which Python orders after every integer: the extended naturals.
\<close>

definition key :: "in_memory_file \<Rightarrow> enat" where
  "key f = (case re_search_digits (name f) of
              Some m \<Rightarrow> enat (int_of_digits m)
            | None \<Rightarrow> \<infinity>)"

text \<open>\<^verbatim>\<open>sorted(files, key=key)\<close>: Python's sort is stable.\<close>

definition sorted_files :: "in_memory_file list \<Rightarrow> in_memory_file list" where
  "sorted_files files = sort_key key files"

definition has_digit :: "in_memory_file \<Rightarrow> bool" where
  "has_digit f = list_ex is_digit (name f)"

definition named :: "string \<Rightarrow> in_memory_file" where
  "named s = \<lparr>name = s, data = []\<rparr>"


section \<open>Waveforms and the silence analysis of the audio library\<close>

text \<open>
  A decoded waveform (\<^verbatim>\<open>AudioSegment\<close>) is modelled at the resolution of its
  interface, the millisecond: it is the list of its one-millisecond frames, of any type
  \<open>'a\<close>. Then \<^verbatim>\<open>len(w)\<close> is the length, \<^verbatim>\<open>w1 + w2\<close> is concatenation,
  \<^verbatim>\<open>AudioSegment.empty()\<close> is the empty list and \<^verbatim>\<open>AudioSegment.silent(duration=d)\<close>
  is \<open>d\<close> copies of a silent frame. Sample rates, channel counts and the rounding of
  millisecond positions to sample positions are below this resolution.
\<close>

text \<open>
  \<^verbatim>\<open>w[a:b]\<close> for non-negative positions: the library first cuts both positions down to
  the duration.
\<close>

definition slice :: "'a list \<Rightarrow> nat \<Rightarrow> nat \<Rightarrow> 'a list" where
  "slice w a b =
     (let start = min a (length w); stop = min b (length w)
      in take (stop - start) (drop start w))"

definition silent :: "'a \<Rightarrow> nat \<Rightarrow> 'a list" where
  "silent z d = replicate d z"

text \<open>
  \<^verbatim>\<open>pydub.silence.detect_silence\<close> with \<^verbatim>\<open>seek_step = 1\<close>. The source calls it
  through \<^verbatim>\<open>detect_nonsilent\<close> and \<^verbatim>\<open>split_on_silence\<close>; it is not part of
  the repository and is embedded here as the library has it. The loudness test of one
  window (\<^verbatim>\<open>audio_slice.rms <= silence_thresh\<close>, a floating-point comparison) is the
  parameter \<open>q\<close>.

  First the start positions of all windows of \<open>msl\<close> milliseconds that are silent.
\<close>

definition silence_starts :: "('a list \<Rightarrow> bool) \<Rightarrow> nat \<Rightarrow> 'a list \<Rightarrow> nat list" where
  "silence_starts q msl w =
     filter (\<lambda>i. q (slice w i (i + msl))) [0 ..< length w - msl + 1]"

text \<open>
  Then the loop that joins the silent windows into ranges: \<open>cur\<close> is
  \<^verbatim>\<open>current_range_start\<close>, \<open>prev\<close> is \<^verbatim>\<open>prev_i\<close>; a new range begins when the next
  silent start is neither the successor of the previous one nor within \<open>msl\<close> of it.
\<close>

fun combine_ranges :: "nat \<Rightarrow> nat \<Rightarrow> nat \<Rightarrow> nat list \<Rightarrow> (nat \<times> nat) list" where
  "combine_ranges msl cur prev [] = [(cur, prev + msl)]"
| "combine_ranges msl cur prev (i # rest) =
     (if i \<noteq> prev + 1 \<and> i > prev + msl
      then (cur, prev + msl) # combine_ranges msl i i rest
      else combine_ranges msl cur i rest)"

definition detect_silence :: "('a list \<Rightarrow> bool) \<Rightarrow> nat \<Rightarrow> 'a list \<Rightarrow> (nat \<times> nat) list" where
  "detect_silence q msl w =
     (if length w < msl then []
      else case silence_starts q msl w of
             [] \<Rightarrow> []
           | p # ps \<Rightarrow> combine_ranges msl p p ps)"

text \<open>
  \<^verbatim>\<open>pydub.silence.detect_nonsilent\<close>: the gaps between the silent ranges. With no
  silent range the whole waveform is one non-silent range; when the first silent range
  covers the whole waveform there is none; a leading empty range \<open>(0, 0)\<close> is dropped.
\<close>

definition detect_nonsilent :: "('a list \<Rightarrow> bool) \<Rightarrow> nat \<Rightarrow> 'a list \<Rightarrow> (nat \<times> nat) list" where
  "detect_nonsilent q msl w =
     (let silent_ranges = detect_silence q msl w; len_seg = length w
      in if silent_ranges = [] then [(0, len_seg)]
         else if fst (hd silent_ranges) = 0 \<and> snd (hd silent_ranges) = len_seg then []
         else
           let nonsilent = map2 (\<lambda>prev_end r. (prev_end, fst r))
                             (0 # map snd silent_ranges) silent_ranges;
               end_i = snd (last silent_ranges);
               nonsilent = (if end_i \<noteq> len_seg then nonsilent @ [(end_i, len_seg)]
                            else nonsilent)
           in if hd nonsilent = (0, 0) then tl nonsilent else nonsilent)"

text \<open>
  \<^verbatim>\<open>pydub.silence.split_on_silence\<close> with an integer \<^verbatim>\<open>keep_silence\<close>: every
  non-silent range is widened by \<open>keep\<close> on both sides, two widened ranges that overlap
  meet in the middle, and each range, cut down to the waveform, is sliced out.
\<close>

fun meet_overlaps :: "(int \<times> int) list \<Rightarrow> (int \<times> int) list" where
  "meet_overlaps ((s1, e1) # (s2, e2) # rest) =
     (if s2 < e1
      then (s1, (e1 + s2) div 2) # meet_overlaps (((e1 + s2) div 2, e2) # rest)
      else (s1, e1) # meet_overlaps ((s2, e2) # rest))"
| "meet_overlaps rs = rs"

definition output_ranges :: "nat \<Rightarrow> (nat \<times> nat) list \<Rightarrow> (int \<times> int) list" where
  "output_ranges keep nons =
     meet_overlaps (map (\<lambda>(start, stop). (int start - int keep, int stop + int keep)) nons)"

definition split_on_silence :: "('a list \<Rightarrow> bool) \<Rightarrow> nat \<Rightarrow> nat \<Rightarrow> 'a list \<Rightarrow> 'a list list" where
  "split_on_silence q msl keep w =
     map (\<lambda>(start, stop). slice w (nat (max start 0)) (nat (min stop (int (length w)))))
       (output_ranges keep (detect_nonsilent q msl w))"


section \<open>The services outside the source\<close>

text \<open>
  Python floats that can be infinite: \<^verbatim>\<open>max_dBFS\<close> of digital silence is
  \<^verbatim>\<open>-inf\<close>. Finite floats are real numbers, and a float operation is the exact
  operation followed by the rounding \<open>fl\<close> of the platform.
\<close>

datatype pyfloat = Fin real | PosInf | NegInf

text \<open>
  The codec, the loudness tool and the float rounding, as parameters:
  \<^item> \<open>decode\<close> is \<^verbatim>\<open>AudioSegment.from_file\<close> for a format (the empty string when
    none is given), \<open>None\<close> when it raises;
  \<^item> \<open>encode\<close> is \<^verbatim>\<open>export\<close> to a format, at the fixed bitrate for mp3;
  \<^item> \<open>quiet t\<close> holds of a window whose rms is at most the threshold of \<open>t\<close> dBFS;
  \<^item> \<open>silence\<close> is one millisecond of \<^verbatim>\<open>AudioSegment.silent\<close>;
  \<^item> \<open>scale g\<close> is \<^verbatim>\<open>apply_gain\<close> on one frame: every sample is multiplied by the
    factor of \<open>g\<close> dB;
  \<^item> \<open>max_dBFS\<close> is the peak level;
  \<^item> \<open>fl\<close> rounds a real number to the nearest float;
  \<^item> \<open>loudnorm\<close> is the ffmpeg run on the content of the input file: the content of
    the output file, or \<open>None\<close> for a non-zero exit.
\<close>

record 'a platform =
  decode :: "string \<Rightarrow> bytes \<Rightarrow> 'a list option"
  encode :: "string \<Rightarrow> 'a list \<Rightarrow> bytes"
  quiet :: "int \<Rightarrow> 'a list \<Rightarrow> bool"
  silence :: "'a"
  scale :: "pyfloat \<Rightarrow> 'a \<Rightarrow> 'a"
  max_dBFS :: "'a list \<Rightarrow> pyfloat"
  fl :: "real \<Rightarrow> real"
  loudnorm :: "real \<Rightarrow> real \<Rightarrow> bytes \<Rightarrow> bytes option"

datatype error = CouldntDecodeError | CalledProcessError | IndexError | ValueError string

text \<open>\<^verbatim>\<open>int(x)\<close> of a float: truncation towards zero.\<close>

definition py_int :: "real \<Rightarrow> int" where
  "py_int x = (if 0 \<le> x then \<lfloor>x\<rfloor> else \<lceil>x\<rceil>)"

text \<open>
  \<^verbatim>\<open>int(i/total*k)\<close>: a float division, a float multiplication, a truncation;
  \<open>tot\<close> stands for the source's \<^verbatim>\<open>total\<close>. The loops below call it with
  \<open>1 \<le> i \<le> tot\<close> only, so the division is never by zero.
\<close>

definition percent :: "(real \<Rightarrow> real) \<Rightarrow> nat \<Rightarrow> nat \<Rightarrow> real \<Rightarrow> int" where
  "percent rnd i tot k = py_int (rnd (rnd (real i / real tot) * k))"

text \<open>\<^verbatim>\<open>-3 - x\<close> on floats.\<close>

fun minus3_minus :: "(real \<Rightarrow> real) \<Rightarrow> pyfloat \<Rightarrow> pyfloat" where
  "minus3_minus rnd (Fin x) = Fin (rnd (- 3 - x))"
| "minus3_minus rnd NegInf = PosInf"
| "minus3_minus rnd PosInf = NegInf"

definition apply_gain :: "'a platform \<Rightarrow> pyfloat \<Rightarrow> 'a list \<Rightarrow> 'a list" where
  "apply_gain P g w = map (scale P g) w"


section \<open>Segmenter: \<^verbatim>\<open>cut_audio\<close>\<close>

text \<open>
  The loop of \<^verbatim>\<open>cut_audio\<close> over \<^verbatim>\<open>enumerate(chunks, start=1)\<close>. The archive
  \<open>zf\<close> is the list of its entries, a name and the encoded bytes each, in the order
  written; \<open>prog\<close> is the list of the values passed to the progress sink so far.
  \<open>lines\<close> is the transcript after decoding and \<^verbatim>\<open>splitlines()\<close>.
\<close>

definition text_line :: "string list \<Rightarrow> nat \<Rightarrow> string" where
  "text_line lines i =
     (if i - 1 < length lines then re_sub_nonword (strip (lines ! (i - 1))) else str_nat i)"

definition chunk_name :: "string list \<Rightarrow> string \<Rightarrow> nat \<Rightarrow> string" where
  "chunk_name lines suffix i = str_nat i @ ''-'' @ text_line lines i @ ''-'' @ suffix @ ''.mp3''"

definition padded :: "'a platform \<Rightarrow> 'a list \<Rightarrow> 'a list" where
  "padded P chunk = (let pad = silent (silence P) 150 in pad @ chunk @ pad)"

fun cut_loop :: "'a platform \<Rightarrow> string list \<Rightarrow> string \<Rightarrow> nat \<Rightarrow> nat \<Rightarrow> 'a list list \<Rightarrow>
    (string \<times> bytes) list \<Rightarrow> int list \<Rightarrow> (string \<times> bytes) list \<times> int list" where
  "cut_loop P lines suffix tot i [] zf prog = (zf, prog)"
| "cut_loop P lines suffix tot i (chunk # rest) zf prog =
     cut_loop P lines suffix tot (i + 1) rest
       (zf @ [(chunk_name lines suffix i, encode P ''mp3'' (padded P chunk))])
       (prog @ [percent (fl P) i tot 100])"

definition cut_audio :: "'a platform \<Rightarrow> bytes \<Rightarrow> string list \<Rightarrow> string \<Rightarrow>
    int list \<times> (error + (string \<times> bytes) list)" where
  "cut_audio P mp3_bytes lines suffix =
     (case decode P ''mp3'' mp3_bytes of
        None \<Rightarrow> ([], Inl CouldntDecodeError)
      | Some sound \<Rightarrow>
          (let chunks = split_on_silence (quiet P (- 50)) 1000 150 sound;
               tot = length chunks;
               (zf, prog) = cut_loop P lines suffix tot 1 chunks [] []
           in (prog, Inr zf)))"


section \<open>Trimmer and Composer: \<^verbatim>\<open>join_audio\<close>\<close>

text \<open>Lines 64 to 68: the trimming of one decoded chunk.\<close>

definition trim :: "'a platform \<Rightarrow> 'a list \<Rightarrow> 'a list" where
  "trim P sound =
     (let nons = detect_nonsilent (quiet P (- 40)) 25 sound
      in if nons \<noteq> []
         then let start = nat (max 0 (int (fst (hd nons)) - 100));
                  stop = min (length sound) (snd (last nons) + 100)
              in slice sound start stop
         else sound)"

text \<open>A position cut down to the waveform: not below 0, not above the duration.\<close>

definition clamp :: "nat \<Rightarrow> int \<Rightarrow> nat" where
  "clamp duration x = nat (max 0 (min (int duration) x))"

text \<open>The first loop: decode and trim every file; a file that does not decode ends it.\<close>

fun trim_loop :: "'a platform \<Rightarrow> nat \<Rightarrow> nat \<Rightarrow> in_memory_file list \<Rightarrow> 'a list list \<Rightarrow>
    int list \<Rightarrow> int list \<times> (error + 'a list list)" where
  "trim_loop P tot i [] segments prog = (prog, Inr segments)"
| "trim_loop P tot i (f # rest) segments prog =
     (case decode P ''mp3'' (data f) of
        None \<Rightarrow> (prog, Inl CouldntDecodeError)
      | Some sound \<Rightarrow>
          (trim_loop P tot (i + 1) rest (segments @ [trim P sound])
             (prog @ [percent (fl P) i tot 50])))"

text \<open>The second loop: every segment, then its filler.\<close>

definition filler :: "'a platform \<Rightarrow> string \<Rightarrow> 'a list \<Rightarrow> 'a list" where
  "filler P mode seg =
     (if mode = ''SAI'' then silent (silence P) 1000 else silent (silence P) (length seg * 2))"

fun concat_loop :: "'a platform \<Rightarrow> string \<Rightarrow> nat \<Rightarrow> nat \<Rightarrow> 'a list list \<Rightarrow> 'a list \<Rightarrow>
    int list \<Rightarrow> 'a list \<times> int list" where
  "concat_loop P mode tot i [] combined prog = (combined, prog)"
| "concat_loop P mode tot i (seg # rest) combined prog =
     concat_loop P mode tot (i + 1) rest
       ((combined @ seg) @ filler P mode seg)
       (prog @ [50 + percent (fl P) i tot 50])"

text \<open>Lines 78 and 79: the gain correction of mode SAI.\<close>

definition finish :: "'a platform \<Rightarrow> string \<Rightarrow> 'a list \<Rightarrow> 'a list" where
  "finish P mode combined =
     (if mode = ''SAI''
      then apply_gain P (minus3_minus (fl P) (max_dBFS P combined)) combined
      else combined)"

definition join_audio :: "'a platform \<Rightarrow> in_memory_file list \<Rightarrow> string \<Rightarrow>
    int list \<times> (error + bytes)" where
  "join_audio P files mode =
     (let files = sorted_files files;
          tot = length files
      in (case trim_loop P tot 1 files [] [] of
            (prog, Inl e) \<Rightarrow> (prog, Inl e)
          | (prog, Inr segments) \<Rightarrow>
              (let (combined, prog) = concat_loop P mode tot 1 segments [] prog
               in (prog, Inr (encode P ''mp3'' (finish P mode combined))))))"


section \<open>Loudness Normalizer: \<^verbatim>\<open>normalize_audio\<close>\<close>

text \<open>
  The two temporary files, made with \<^verbatim>\<open>delete=False\<close>; the state of the temporary
  directory is the list of those that exist. The result is the progress values, the
  temporary files left behind and the value returned or the exception raised.
  \<^verbatim>\<open>setup_ffmpeg()\<close> is cached and has already run when the script was loaded, so it
  returns at once.
\<close>

datatype tmpfile = TmpIn | TmpOut

definition unlink :: "tmpfile \<Rightarrow> tmpfile list \<Rightarrow> tmpfile list" where
  "unlink f fs = removeAll f fs"

definition normalize_audio :: "'a platform \<Rightarrow> bytes \<Rightarrow> real \<Rightarrow> real \<Rightarrow>
    int list \<times> tmpfile list \<times> (error + bytes)" where
  "normalize_audio P input_bytes target_lufs peak_db =
     (case decode P '''' input_bytes of
        None \<Rightarrow> ([], [], Inl CouldntDecodeError)
      | Some audio \<Rightarrow>
          (let fs = [TmpIn];
               wav_in = encode P ''wav'' audio;
               prog = [10];
               fs = fs @ [TmpOut];
               prog = prog @ [20]
           in (case loudnorm P target_lufs peak_db wav_in of
                 None \<Rightarrow> (prog, fs, Inl CalledProcessError)
               | Some wav_out \<Rightarrow>
                   (let prog = prog @ [70]
                    in (case decode P ''wav'' wav_out of
                          None \<Rightarrow> (prog, fs, Inl CouldntDecodeError)
                        | Some norm_audio \<Rightarrow>
                            (let out_buf = encode P ''mp3'' norm_audio;
                                 prog = prog @ [100];
                                 fs = unlink TmpOut (unlink TmpIn fs)
                             in (prog, fs, Inr out_buf)))))))"


section \<open>Row Pairer: \<^verbatim>\<open>generate_anki_csv\<close>\<close>

text \<open>
  \<open>rows\<close> is the list that \<^verbatim>\<open>csv.reader\<close> parsed; the result is the list of the rows
  handed to \<^verbatim>\<open>writer.writerow\<close>, in the order written, which the writer lays out as
  tab-separated lines.
\<close>

definition sound_tag :: "string \<Rightarrow> string" where
  "sound_tag n = ''[sound:'' @ n @ '']''"

fun pair_loop :: "(real \<Rightarrow> real) \<Rightarrow> in_memory_file list \<Rightarrow> nat \<Rightarrow> nat \<Rightarrow> string list list \<Rightarrow>
    string list list \<Rightarrow> int list \<Rightarrow> int list \<times> (error + string list list)" where
  "pair_loop rnd files tot i [] buf prog = (prog, Inr buf)"
| "pair_loop rnd files tot i (row # rest) buf prog =
     (if i - 1 < length files
      then pair_loop rnd files tot (i + 1) rest
             (buf @ [row @ [sound_tag (name (files ! (i - 1)))]])
             (prog @ [percent rnd i tot 100])
      else (prog, Inl IndexError))"

definition mismatch_message :: "nat \<Rightarrow> nat \<Rightarrow> string" where
  "mismatch_message r f =
     ''Row count ('' @ str_nat r @ '') != file count ('' @ str_nat f @ '')''"

definition generate_anki_csv :: "(real \<Rightarrow> real) \<Rightarrow> string list list \<Rightarrow> in_memory_file list \<Rightarrow>
    int list \<times> (error + string list list)" where
  "generate_anki_csv rnd rows files =
     (let files = sorted_files files;
          tot = length rows
      in if length rows \<noteq> length files
         then ([], Inl (ValueError (mismatch_message (length rows) (length files))))
         else pair_loop rnd files tot 1 rows [] [])"


section \<open>Progress values\<close>

text \<open>
  What the proofs about progress values need of the rounding to the nearest float: it is
  monotone, and 0, 1, 50 and 100 are floats.
\<close>

definition rounding :: "(real \<Rightarrow> real) \<Rightarrow> bool" where
  "rounding rnd = (mono rnd \<and> rnd 0 = 0 \<and> rnd 1 = 1 \<and> rnd 50 = 50 \<and> rnd 100 = 100)"

definition in_range :: "int list \<Rightarrow> bool" where
  "in_range prog = list_all (\<lambda>p. 0 \<le> p \<and> p \<le> 100) prog"

definition all_below :: "int list \<Rightarrow> int list \<Rightarrow> bool" where
  "all_below xs ys = list_all (\<lambda>x. list_all (\<lambda>y. x \<le> y) ys) xs"


section \<open>A small platform to run the operations on\<close>

text \<open>
  A frame is the level of its millisecond: 0 is digital silence, \<open>n > 0\<close> stands for
  \<open>n - 100\<close> dBFS. Bytes decode to themselves (no bytes at all do not decode), a window
  is quiet when no frame is above the threshold, the peak is the highest level and
  digital silence has none, gain leaves a silent frame silent and shifts the level of
  any other up to full scale, floats are exact, and the loudness tool rejects a target
  outside its range of -70 to -5.
\<close>

definition top_level :: "nat list \<Rightarrow> nat" where
  "top_level w = foldr max w 0"

definition demo :: "nat platform" where
  "demo = \<lparr> decode = (\<lambda>fmt bs. if bs = [] then None else Some bs),
            encode = (\<lambda>fmt w. w),
            quiet = (\<lambda>thresh w. list_all (\<lambda>x. x = 0 \<or> int x - 100 \<le> thresh) w),
            silence = 0,
            scale = (\<lambda>g x. if x = 0 then 0
                           else case g of Fin r \<Rightarrow> nat (min 100 (int x + \<lfloor>r\<rfloor>))
                                | PosInf \<Rightarrow> 100 | NegInf \<Rightarrow> 0),
            max_dBFS = (\<lambda>w. if top_level w = 0 then NegInf
                             else Fin (real (top_level w) - 100)),
            fl = (\<lambda>x. x),
            loudnorm = (\<lambda>lufs peak wav. if - 70 \<le> lufs \<and> lufs \<le> - 5 then Some wav else None) \<rparr>"

text \<open>Two chunk files, named out of order.\<close>

definition two_files :: "in_memory_file list" where
  "two_files = [\<lparr>name = ''2-b'', data = [0, 90]\<rparr>, \<lparr>name = ''1-a'', data = [80]\<rparr>]"

text \<open>Two recordings: a second of silence before one loud millisecond, and a second of
  silence between two.\<close>

definition lead_in :: "nat list" where
  "lead_in = replicate 1000 0 @ [90]"

definition two_spans :: "nat list" where
  "two_spans = [90] @ replicate 1000 0 @ [90]"


section \<open>Runs of silent windows\<close>

text \<open>
  Notions for the proofs about the silence analysis. \<open>breaks\<close> is the test of
  \<^const>\<open>combine_ranges\<close> that ends a range; \<open>first_end\<close> is the last silent
  start of the first range, \<open>last_start\<close> the first silent start of the last range.
\<close>

definition breaks :: "nat \<Rightarrow> nat \<Rightarrow> nat \<Rightarrow> bool" where
  "breaks msl prev i = (i \<noteq> prev + 1 \<and> i > prev + msl)"

fun first_end :: "nat \<Rightarrow> nat \<Rightarrow> nat list \<Rightarrow> nat" where
  "first_end msl prev [] = prev"
| "first_end msl prev (i # rest) =
     (if breaks msl prev i then prev else first_end msl i rest)"

fun last_start :: "nat \<Rightarrow> nat \<Rightarrow> nat \<Rightarrow> nat list \<Rightarrow> nat" where
  "last_start msl cur prev [] = cur"
| "last_start msl cur prev (i # rest) =
     (if breaks msl prev i then last_start msl i i rest else last_start msl cur i rest)"


section \<open>The loops in closed form\<close>

lemma cut_loop_eq:
  "cut_loop P lines suffix tot i chunks zf prog =
     (zf @ map (\<lambda>(j, c). (chunk_name lines suffix j, encode P ''mp3'' (padded P c)))
             (zip [i ..< i + length chunks] chunks),
      prog @ map (\<lambda>j. percent (fl P) j tot 100) [i ..< i + length chunks])"
proof (induction chunks arbitrary: i zf prog)
  case Nil
  then show ?case by simp
next
  case (Cons c chunks)
  have "[i ..< i + length (c # chunks)] = i # [i + 1 ..< (i + 1) + length chunks]"
    by (simp add: upt_rec)
  with Cons.IH [of "i + 1"] show ?case by simp
qed

lemma concat_loop_eq:
  "concat_loop P mode tot i segs combined prog =
     (combined @ concat (map (\<lambda>s. s @ filler P mode s) segs),
      prog @ map (\<lambda>j. 50 + percent (fl P) j tot 50) [i ..< i + length segs])"
proof (induction segs arbitrary: i combined prog)
  case Nil
  then show ?case by simp
next
  case (Cons s segs)
  have "[i ..< i + length (s # segs)] = i # [i + 1 ..< (i + 1) + length segs]"
    by (simp add: upt_rec)
  with Cons.IH [of "i + 1"] show ?case by simp
qed

lemma trim_loop_ok:
  "map (\<lambda>f. decode P ''mp3'' (data f)) fs = map Some sounds \<Longrightarrow>
   trim_loop P tot i fs segments prog =
     (prog @ map (\<lambda>j. percent (fl P) j tot 50) [i ..< i + length fs],
      Inr (segments @ map (trim P) sounds))"
proof (induction fs arbitrary: i segments prog sounds)
  case Nil
  then show ?case by simp
next
  case (Cons f fs)
  from Cons.prems obtain s rest where sounds: "sounds = s # rest"
    and s: "decode P ''mp3'' (data f) = Some s"
    and rest: "map (\<lambda>f. decode P ''mp3'' (data f)) fs = map Some rest"
    by (cases sounds) auto
  have "[i ..< i + length (f # fs)] = i # [i + 1 ..< (i + 1) + length fs]"
    by (simp add: upt_rec)
  with Cons.IH [OF rest, of "i + 1"] s sounds show ?case by simp
qed

lemma trim_loop_progress:
  "\<exists>k \<le> length fs. fst (trim_loop P tot i fs segments prog) =
      prog @ map (\<lambda>j. percent (fl P) j tot 50) [i ..< i + k]"
proof (induction fs arbitrary: i segments prog)
  case Nil
  then show ?case by simp
next
  case (Cons f fs)
  show ?case
  proof (cases "decode P ''mp3'' (data f)")
    case None
    then have "fst (trim_loop P tot i (f # fs) segments prog) =
        prog @ map (\<lambda>j. percent (fl P) j tot 50) [i ..< i + 0]"
      by simp
    then show ?thesis by blast
  next
    case (Some s)
    from Cons.IH [of "i + 1" "segments @ [trim P s]" "prog @ [percent (fl P) i tot 50]"]
    obtain k where k: "k \<le> length fs"
      and eq: "fst (trim_loop P tot (i + 1) fs (segments @ [trim P s])
                 (prog @ [percent (fl P) i tot 50])) =
               (prog @ [percent (fl P) i tot 50]) @
                 map (\<lambda>j. percent (fl P) j tot 50) [i + 1 ..< i + 1 + k]"
      by blast
    have "[i ..< i + Suc k] = i # [i + 1 ..< i + 1 + k]"
      by (simp add: upt_rec)
    with Some eq have "fst (trim_loop P tot i (f # fs) segments prog) =
        prog @ map (\<lambda>j. percent (fl P) j tot 50) [i ..< i + Suc k]"
      by simp
    moreover from k have "Suc k \<le> length (f # fs)" by simp
    ultimately show ?thesis by blast
  qed
qed

lemma pair_loop_eq:
  "1 \<le> i \<Longrightarrow> (i - 1) + length rows \<le> length files \<Longrightarrow>
   pair_loop rnd files tot i rows buf prog =
     (prog @ map (\<lambda>j. percent rnd j tot 100) [i ..< i + length rows],
      Inr (buf @ map2 (\<lambda>row f. row @ [sound_tag (name f)]) rows (drop (i - 1) files)))"
proof (induction rows arbitrary: i buf prog)
  case Nil
  then show ?case by simp
next
  case (Cons row rows)
  have upt: "[i ..< i + length (row # rows)] = i # [i + 1 ..< (i + 1) + length rows]"
    by (simp add: upt_rec)
  from Cons.prems have lt: "i - 1 < length files" by simp
  then have dr: "drop (i - 1) files = files ! (i - 1) # drop i files"
    using Cons.prems(1) by (metis Cons_nth_drop_Suc Suc_diff_1 Suc_le_eq One_nat_def)
  from Cons.prems have "1 \<le> i + 1" "(i + 1 - 1) + length rows \<le> length files" by simp_all
  from Cons.IH [OF this] lt upt dr show ?case by simp
qed


lemma percent_bounds:
  assumes "mono rnd" "rnd 0 = 0" "rnd 1 = 1" "rnd k = k" "0 \<le> k" "i \<le> tot"
  shows "0 \<le> percent rnd i tot k \<and> real_of_int (percent rnd i tot k) \<le> k"
proof -
  let ?x = "rnd (real i / real tot)"
  have "0 \<le> real i / real tot" by simp
  then have "rnd 0 \<le> ?x" by (rule monoD [OF assms(1)])
  then have x0: "0 \<le> ?x" using assms(2) by simp
  have "real i / real tot \<le> 1" using assms(6)
    by (cases "tot = 0") (simp_all add: divide_le_eq_1)
  then have "?x \<le> rnd 1" by (rule monoD [OF assms(1)])
  then have x1: "?x \<le> 1" using assms(3) by simp
  have "0 \<le> ?x * k" using x0 assms(5) by simp
  then have "rnd 0 \<le> rnd (?x * k)" by (rule monoD [OF assms(1)])
  then have y0: "0 \<le> rnd (?x * k)" using assms(2) by simp
  have "?x * k \<le> 1 * k" using x1 assms(5) by (rule mult_right_mono)
  then have "rnd (?x * k) \<le> rnd k" using assms(1) by (simp add: monoD)
  then have y1: "rnd (?x * k) \<le> k" using assms(4) by simp
  have "percent rnd i tot k = \<lfloor>rnd (?x * k)\<rfloor>"
    using y0 by (simp add: percent_def py_int_def)
  moreover have "0 \<le> \<lfloor>rnd (?x * k)\<rfloor>" using y0 by simp
  moreover have "real_of_int \<lfloor>rnd (?x * k)\<rfloor> \<le> k" using y1 by linarith
  ultimately show ?thesis by simp
qed

lemma percent_mono:
  assumes "mono rnd" "rnd 0 = 0" "0 \<le> k" "i \<le> j"
  shows "percent rnd i tot k \<le> percent rnd j tot k"
proof -
  have a: "real i / real tot \<le> real j / real tot"
    using assms(4) by (simp add: divide_right_mono)
  then have b: "rnd (real i / real tot) \<le> rnd (real j / real tot)"
    by (rule monoD [OF assms(1)])
  then have "rnd (real i / real tot) * k \<le> rnd (real j / real tot) * k"
    using assms(3) by (rule mult_right_mono)
  then have c: "rnd (rnd (real i / real tot) * k) \<le> rnd (rnd (real j / real tot) * k)"
    by (rule monoD [OF assms(1)])
  have "0 \<le> real i / real tot" by simp
  then have "rnd 0 \<le> rnd (real i / real tot)" by (rule monoD [OF assms(1)])
  then have "0 \<le> rnd (real i / real tot) * k" using assms(2,3) by simp
  then have "rnd 0 \<le> rnd (rnd (real i / real tot) * k)" by (rule monoD [OF assms(1)])
  then have d: "0 \<le> rnd (rnd (real i / real tot) * k)" using assms(2) by simp
  with c have e: "0 \<le> rnd (rnd (real j / real tot) * k)" by linarith
  from c d e show ?thesis
    by (simp add: percent_def py_int_def floor_mono)
qed

lemma sorted_map_upt:
  fixes f :: "nat \<Rightarrow> int"
  assumes "\<And>a b. a \<le> b \<Longrightarrow> f a \<le> f b"
  shows "sorted (map f [i ..< j])"
  by (simp add: sorted_map sorted_wrt_iff_nth_less assms)



lemma cut_audio_Some:
  assumes "decode P ''mp3'' b = Some sound"
  shows "cut_audio P b lines suffix =
     (map (\<lambda>j. percent (fl P) j (length (split_on_silence (quiet P (- 50)) 1000 150 sound)) 100)
        [1 ..< 1 + length (split_on_silence (quiet P (- 50)) 1000 150 sound)],
      Inr (map (\<lambda>(j, c). (chunk_name lines suffix j, encode P ''mp3'' (padded P c)))
             (zip [1 ..< 1 + length (split_on_silence (quiet P (- 50)) 1000 150 sound)]
                (split_on_silence (quiet P (- 50)) 1000 150 sound))))"
  using assms by (simp add: cut_audio_def Let_def cut_loop_eq)

lemma strip_word: "filter is_word (strip s) = filter is_word s"
proof -
  have nw: "\<And>c. is_space c \<Longrightarrow> \<not> is_word c"
    by (auto simp: is_space_def is_word_def Let_def)
  have drop: "\<And>xs. filter is_word (dropWhile is_space xs) = filter is_word xs"
  proof -
    fix xs show "filter is_word (dropWhile is_space xs) = filter is_word xs"
      by (induction xs) (simp_all add: nw)
  qed
  have "filter is_word (strip s) = rev (filter is_word (dropWhile is_space (rev (dropWhile is_space s))))"
    by (simp add: strip_def rev_filter)
  also have "\<dots> = rev (filter is_word (rev (dropWhile is_space s)))"
    by (simp only: drop)
  also have "\<dots> = filter is_word (dropWhile is_space s)"
    by (simp add: rev_filter)
  also have "\<dots> = filter is_word s"
    by (rule drop)
  finally show ?thesis .
qed

lemma chunk_name_eq:
  "chunk_name lines suffix (i + 1) =
     str_nat (i + 1) @ ''-'' @
     (if i < length lines then filter is_word (lines ! i) else str_nat (i + 1)) @
     ''-'' @ suffix @ ''.mp3''"
  by (simp add: chunk_name_def text_line_def re_sub_nonword_def strip_word)

lemma join_audio_ok:
  assumes "map (\<lambda>f. decode P ''mp3'' (data f)) (sorted_files files) = map Some sounds"
  shows "join_audio P files mode =
     (map (\<lambda>j. percent (fl P) j (length files) 50) [1 ..< 1 + length files] @
      map (\<lambda>j. 50 + percent (fl P) j (length files) 50) [1 ..< 1 + length files],
      Inr (encode P ''mp3''
             (finish P mode (concat (map (\<lambda>s. s @ filler P mode s) (map (trim P) sounds))))))"
proof -
  have n: "length (sorted_files files) = length files"
    by (simp add: sorted_files_def)
  from assms have "length (map (\<lambda>f. decode P ''mp3'' (data f)) (sorted_files files))
      = length (map Some sounds)"
    by simp
  then have m: "length sounds = length files"
    using n by simp
  show ?thesis
    by (simp add: join_audio_def Let_def n trim_loop_ok [OF assms] concat_loop_eq m
          del: upt_Suc)
qed

lemma generate_anki_csv_equal:
  assumes "length rows = length files"
  shows "generate_anki_csv rnd rows files =
     (map (\<lambda>j. percent rnd j (length rows) 100) [1 ..< 1 + length rows],
      Inr (map2 (\<lambda>row f. row @ [sound_tag (name f)]) rows (sorted_files files)))"
proof -
  have n: "length (sorted_files files) = length files"
    by (simp add: sorted_files_def)
  have "(1::nat) \<le> 1" "(1 - 1) + length rows \<le> length (sorted_files files)"
    using assms n by simp_all
  from pair_loop_eq [OF this] show ?thesis
    using assms n by (simp add: generate_anki_csv_def Let_def del: upt_Suc)
qed

section \<open>Ordering\<close>

lemma re_search_digits_None: "re_search_digits s = None \<longleftrightarrow> \<not> (\<exists>c \<in> set s. is_digit c)"
proof -
  have "dropWhile (\<lambda>c. \<not> is_digit c) s = [] \<longleftrightarrow> (\<forall>c \<in> set s. \<not> is_digit c)"
    by simp
  then show ?thesis
    by (auto simp: re_search_digits_def Let_def)
qed

lemma key_infinite: "key f = \<infinity> \<longleftrightarrow> \<not> has_digit f"
proof (cases "re_search_digits (name f)")
  case None
  then show ?thesis
    using re_search_digits_None [of "name f"] by (simp add: key_def has_digit_def list_ex_iff)
next
  case (Some m)
  then show ?thesis
    using re_search_digits_None [of "name f"] by (simp add: key_def has_digit_def list_ex_iff)
qed

lemma sorted_top_last:
  fixes k :: "'a \<Rightarrow> enat"
  shows "sorted (map k xs) \<Longrightarrow>
         filter (\<lambda>x. k x \<noteq> \<infinity>) xs @ filter (\<lambda>x. k x = \<infinity>) xs = xs"
proof (induction xs)
  case Nil
  then show ?case by simp
next
  case (Cons x xs)
  show ?case
  proof (cases "k x = \<infinity>")
    case True
    with Cons.prems have "\<forall>y \<in> set xs. k y = \<infinity>" by auto
    then have "filter (\<lambda>x. k x \<noteq> \<infinity>) xs = []" and "filter (\<lambda>x. k x = \<infinity>) xs = xs"
      by (simp_all add: filter_empty_conv filter_id_conv)
    with True show ?thesis by simp
  next
    case False
    with Cons show ?thesis by auto
  qed
qed

lemma key_examples:
  "key (named ''10-b'') = 10" "key (named ''2-a'') = 2" "key (named ''bare'') = \<infinity>"
  by (simp_all add: key_def named_def re_search_digits_def is_digit_def code_def
        int_of_digits_def numeral_eq_enat)

text \<open>
  C1. The ordering shared by the Composer (\<^verbatim>\<open>join_audio\<close>) and the Row Pairer
  (\<^verbatim>\<open>generate_anki_csv\<close>): the sorted list is a rearrangement of the files, its keys
  (the value of the first run of digits of the name) ascend, the files of any one key
  keep their original relative order, every file whose name has a digit stands before
  every file whose name has none, and the names 10-b, 2-a, bare come out as
  2-a, 10-b, bare.
\<close>

theorem numeric_order_stable:
  "mset (sorted_files fs) = mset fs
   \<and> sorted (map key (sorted_files fs))
   \<and> filter (\<lambda>f. key f = k) (sorted_files fs) = filter (\<lambda>f. key f = k) fs
   \<and> filter has_digit (sorted_files fs) @ filter (\<lambda>f. \<not> has_digit f) (sorted_files fs)
       = sorted_files fs
   \<and> map name (sorted_files [named ''10-b'', named ''2-a'', named ''bare''])
       = [''2-a'', ''10-b'', ''bare'']"
proof -
  have perm: "mset (sorted_files fs) = mset fs"
    by (simp add: sorted_files_def)
  have asc: "sorted (map key (sorted_files fs))"
    by (simp add: sorted_files_def)
  have stable: "filter (\<lambda>f. key f = k) (sorted_files fs) = filter (\<lambda>f. key f = k) fs"
    unfolding sorted_files_def by (rule sort_key_stable)
  have "filter (\<lambda>f. key f \<noteq> \<infinity>) (sorted_files fs) @ filter (\<lambda>f. key f = \<infinity>) (sorted_files fs)
          = sorted_files fs"
    using asc by (rule sorted_top_last)
  then have last: "filter has_digit (sorted_files fs) @ filter (\<lambda>f. \<not> has_digit f) (sorted_files fs)
          = sorted_files fs"
    by (simp add: key_infinite)
  have example: "map name (sorted_files [named ''10-b'', named ''2-a'', named ''bare''])
          = [''2-a'', ''10-b'', ''bare'']"
    by (simp add: sorted_files_def key_examples) (simp add: named_def)
  from perm asc stable last example show ?thesis by blast
qed


section \<open>Running the small platform\<close>

lemma demo_simps:
  "decode demo fmt bs = (if bs = [] then None else Some bs)"
  "encode demo fmt w = w"
  "quiet demo t w = list_all (\<lambda>x. x = 0 \<or> int x - 100 \<le> t) w"
  "silence demo = 0"
  "fl demo = (\<lambda>x. x)"
  "loudnorm demo lufs peak wav = (if - 70 \<le> lufs \<and> lufs \<le> - 5 then Some wav else None)"
  by (simp_all add: demo_def)

lemma two_files_sorted:
  "sorted_files two_files = [\<lparr>name = ''1-a'', data = [80]\<rparr>, \<lparr>name = ''2-b'', data = [0, 90]\<rparr>]"
proof -
  have "key \<lparr>name = ''2-b'', data = [0, 90]\<rparr> = 2" "key \<lparr>name = ''1-a'', data = [80]\<rparr> = 1"
    by (simp_all add: key_def re_search_digits_def is_digit_def code_def int_of_digits_def
          numeral_eq_enat one_enat_def)
  then show ?thesis
    by (simp add: sorted_files_def two_files_def)
qed

lemma two_files_decoded:
  "map (\<lambda>f. decode demo ''mp3'' (data f)) (sorted_files two_files) = map Some [[80], [0, 90]]"
  by (simp add: two_files_sorted demo_simps)

section \<open>Progress\<close>

lemma percent_sorted:
  assumes "rounding rnd" "0 \<le> k"
  shows "sorted (map (\<lambda>j. percent rnd j tot k) [i ..< j])"
    and "sorted (map (\<lambda>j. c + percent rnd j tot k) [i ..< j])"
proof -
  have m: "\<And>a b. a \<le> b \<Longrightarrow> percent rnd a tot k \<le> percent rnd b tot k"
    using assms by (simp add: rounding_def percent_mono)
  then show "sorted (map (\<lambda>j. percent rnd j tot k) [i ..< j])"
    by (rule sorted_map_upt)
  from m have "\<And>a b. a \<le> b \<Longrightarrow> c + percent rnd a tot k \<le> c + percent rnd b tot k"
    by simp
  then show "sorted (map (\<lambda>j. c + percent rnd j tot k) [i ..< j])"
    by (rule sorted_map_upt)
qed

lemma percent_100:
  assumes "rounding rnd" "j \<le> tot"
  shows "0 \<le> percent rnd j tot 100 \<and> percent rnd j tot 100 \<le> 100"
proof -
  have "0 \<le> percent rnd j tot 100 \<and> real_of_int (percent rnd j tot 100) \<le> 100"
    using assms by (intro percent_bounds) (simp_all add: rounding_def)
  then show ?thesis by linarith
qed

lemma percent_50:
  assumes "rounding rnd" "j \<le> tot"
  shows "0 \<le> percent rnd j tot 50 \<and> percent rnd j tot 50 \<le> 50"
proof -
  have "0 \<le> percent rnd j tot 50 \<and> real_of_int (percent rnd j tot 50) \<le> 50"
    using assms by (intro percent_bounds) (simp_all add: rounding_def)
  then show ?thesis by linarith
qed

lemma in_range_100:
  assumes "rounding rnd" "n \<le> tot"
  shows "in_range (map (\<lambda>j. percent rnd j tot 100) [1 ..< 1 + n])"
  using assms by (auto simp: in_range_def list_all_iff percent_100 simp del: upt_Suc)

lemma cut_audio_progress:
  assumes "rounding (fl P)"
  shows "sorted (fst (cut_audio P b lines suffix)) \<and> in_range (fst (cut_audio P b lines suffix))"
proof (cases "decode P ''mp3'' b")
  case None
  then show ?thesis by (simp add: cut_audio_def in_range_def)
next
  case (Some sound)
  let ?n = "length (split_on_silence (quiet P (- 50)) 1000 150 sound)"
  have e: "fst (cut_audio P b lines suffix) = map (\<lambda>j. percent (fl P) j ?n 100) [1 ..< 1 + ?n]"
    by (simp add: cut_audio_Some [OF Some] del: upt_Suc)
  have "sorted (map (\<lambda>j. percent (fl P) j ?n 100) [1 ..< 1 + ?n])"
    using assms by (intro percent_sorted) simp_all
  moreover have "in_range (map (\<lambda>j. percent (fl P) j ?n 100) [1 ..< 1 + ?n])"
    using assms by (intro in_range_100) simp_all
  ultimately show ?thesis
    by (simp only: e)
qed

lemma generate_anki_csv_progress:
  assumes "rounding rnd"
  shows "sorted (fst (generate_anki_csv rnd rows files))
         \<and> in_range (fst (generate_anki_csv rnd rows files))"
proof (cases "length rows = length files")
  case True
  let ?n = "length rows"
  have e: "fst (generate_anki_csv rnd rows files) = map (\<lambda>j. percent rnd j ?n 100) [1 ..< 1 + ?n]"
    by (simp add: generate_anki_csv_equal [OF True] del: upt_Suc)
  have "sorted (map (\<lambda>j. percent rnd j ?n 100) [1 ..< 1 + ?n])"
    using assms by (intro percent_sorted) simp_all
  moreover have "in_range (map (\<lambda>j. percent rnd j ?n 100) [1 ..< 1 + ?n])"
    using assms by (intro in_range_100) simp_all
  ultimately show ?thesis
    by (simp only: e)
next
  case False
  then show ?thesis
    by (simp add: generate_anki_csv_def Let_def sorted_files_def in_range_def)
qed

lemma normalize_audio_progress:
  "sorted (fst (normalize_audio P b lufs peak)) \<and> in_range (fst (normalize_audio P b lufs peak))"
  by (simp add: normalize_audio_def in_range_def Let_def split: option.splits)

lemma join_audio_progress:
  assumes "rounding (fl P)"
  shows "\<exists>t1 t2. fst (trim_loop P (length files) 1 (sorted_files files) [] []) = t1
           \<and> fst (join_audio P files mode) = t1 @ t2
           \<and> sorted t1 \<and> sorted t2
           \<and> list_all (\<lambda>x. 0 \<le> x \<and> x \<le> 50) t1 \<and> list_all (\<lambda>y. 50 \<le> y \<and> y \<le> 100) t2"
proof -
  let ?n = "length files"
  let ?fs = "sorted_files files"
  have n: "length ?fs = ?n" by (simp add: sorted_files_def)
  obtain k where k: "k \<le> ?n"
    and t1: "fst (trim_loop P ?n 1 ?fs [] []) = map (\<lambda>j. percent (fl P) j ?n 50) [1 ..< 1 + k]"
    using trim_loop_progress [of ?fs P ?n 1 "[]" "[]"] n by auto
  let ?t1 = "map (\<lambda>j. percent (fl P) j ?n 50) [1 ..< 1 + k]"
  have s1: "sorted ?t1"
    using assms by (simp add: percent_sorted del: upt_Suc)
  have r1: "list_all (\<lambda>x. 0 \<le> x \<and> x \<le> 50) ?t1"
    using assms k by (auto simp: list_all_iff percent_50 simp del: upt_Suc)
  obtain prog res where tl: "trim_loop P ?n 1 ?fs [] [] = (prog, res)"
    by (cases "trim_loop P ?n 1 ?fs [] []")
  with t1 have prog: "prog = ?t1" by simp
  show ?thesis
  proof (cases res)
    case (Inl e)
    with tl have "fst (join_audio P files mode) = ?t1 @ []"
      by (simp add: join_audio_def Let_def n prog)
    with t1 s1 r1 show ?thesis by (intro exI [of _ ?t1] exI [of _ "[]"]) simp
  next
    case (Inr segments)
    let ?t2 = "map (\<lambda>j. 50 + percent (fl P) j ?n 50) [1 ..< 1 + length segments]"
    have len: "length segments \<le> ?n"
    proof -
      have "\<And>i segs pr pr' out. trim_loop P ?n i fs' segs pr = (pr', Inr out)
          \<Longrightarrow> length out = length segs + length fs'" for fs'
      proof (induction fs')
        case Nil
        then show ?case by simp
      next
        case (Cons f fs')
        then show ?case by (auto split: option.splits)
      qed
      from this [OF tl [unfolded Inr]] n show ?thesis by simp
    qed
    from tl Inr have j: "fst (join_audio P files mode) = ?t1 @ ?t2"
      by (simp add: join_audio_def Let_def n prog concat_loop_eq del: upt_Suc)
    have s2: "sorted ?t2"
      using assms by (simp add: percent_sorted del: upt_Suc)
    have r2: "list_all (\<lambda>y. 50 \<le> y \<and> y \<le> 100) ?t2"
    proof -
      have "\<And>j. j \<le> ?n \<Longrightarrow> 50 \<le> 50 + percent (fl P) j ?n 50 \<and> 50 + percent (fl P) j ?n 50 \<le> 100"
        using percent_50 [OF assms] by fastforce
      with len show ?thesis
        by (auto simp: list_all_iff simp del: upt_Suc)
    qed
    from t1 j s1 s2 r1 r2 show ?thesis
      by (intro exI [of _ ?t1] exI [of _ ?t2]) simp
  qed
qed

text \<open>
  C10. With a rounding to the nearest float that is monotone and leaves 0, 1, 50 and 100
  as they are, the values each operation passes to the progress sink are integers from
  0 to 100 in ascending order, whatever the input and whether the operation returns or
  raises; and in the Composer the values of the concatenation loop follow those of the
  trimming loop, none of them below any of those.
\<close>

theorem progress_values:
  assumes "rounding (fl P)"
  shows "sorted (fst (cut_audio P b lines suffix)) \<and> in_range (fst (cut_audio P b lines suffix))
     \<and> sorted (fst (join_audio P files mode)) \<and> in_range (fst (join_audio P files mode))
     \<and> sorted (fst (normalize_audio P b lufs peak))
     \<and> in_range (fst (normalize_audio P b lufs peak))
     \<and> sorted (fst (generate_anki_csv (fl P) rows files))
     \<and> in_range (fst (generate_anki_csv (fl P) rows files))
     \<and> (\<exists>t2. fst (join_audio P files mode) =
               fst (trim_loop P (length files) 1 (sorted_files files) [] []) @ t2
             \<and> all_below (fst (trim_loop P (length files) 1 (sorted_files files) [] [])) t2)"
proof -
  obtain t1 t2 where t1: "fst (trim_loop P (length files) 1 (sorted_files files) [] []) = t1"
    and j: "fst (join_audio P files mode) = t1 @ t2"
    and s: "sorted t1" "sorted t2"
    and r1: "list_all (\<lambda>x. 0 \<le> x \<and> x \<le> 50) t1"
    and r2: "list_all (\<lambda>y. 50 \<le> y \<and> y \<le> 100) t2"
    using join_audio_progress [OF assms, of files mode] by blast
  have below: "all_below t1 t2"
    using r1 r2 by (fastforce simp: all_below_def list_all_iff)
  then have "\<forall>x \<in> set t1. \<forall>y \<in> set t2. x \<le> y"
    by (simp add: all_below_def list_all_iff)
  with s have js: "sorted (t1 @ t2)"
    by (simp add: sorted_append)
  have jr: "in_range (t1 @ t2)"
    using r1 r2 by (fastforce simp: in_range_def list_all_iff)
  from t1 j below have ph: "\<exists>t2. fst (join_audio P files mode) =
               fst (trim_loop P (length files) 1 (sorted_files files) [] []) @ t2
             \<and> all_below (fst (trim_loop P (length files) 1 (sorted_files files) [] [])) t2"
    by auto
  from cut_audio_progress [OF assms, of b lines suffix] js jr j
    normalize_audio_progress [of P b lufs peak]
    generate_anki_csv_progress [OF assms, of rows files] ph
  show ?thesis by simp
qed

theorem progress_values_witness:
  "rounding (fl demo)
   \<and> fst (join_audio demo two_files ''SAI'') = [25, 50, 75, 100]
   \<and> sorted (fst (join_audio demo two_files ''SAI''))
   \<and> in_range (fst (join_audio demo two_files ''SAI''))
   \<and> fst (trim_loop demo (length two_files) 1 (sorted_files two_files) [] []) = [25, 50]
   \<and> (\<exists>t2. fst (join_audio demo two_files ''SAI'') =
              fst (trim_loop demo (length two_files) 1 (sorted_files two_files) [] []) @ t2
            \<and> all_below (fst (trim_loop demo (length two_files) 1 (sorted_files two_files) [] [])) t2)"
proof -
  have r: "rounding (fl demo)"
    by (simp add: rounding_def demo_simps mono_def)
  have l: "length two_files = 2"
    by (simp add: two_files_def)
  have u: "[Suc 0 ..< Suc (Suc (Suc 0))] = [Suc 0, 2]"
    by (simp add: upt_rec numeral_2_eq_2)
  have j: "fst (join_audio demo two_files ''SAI'') = [25, 50, 75, 100]"
    by (simp add: join_audio_ok [OF two_files_decoded] l u demo_simps percent_def py_int_def
          del: upt_Suc)
  have "fst (trim_loop demo 2 1 (sorted_files two_files) [] []) = [25, 50]"
    using u by (simp add: trim_loop_ok [OF two_files_decoded] two_files_sorted demo_simps
        percent_def py_int_def del: upt_Suc)
  then have t: "fst (trim_loop demo (length two_files) 1 (sorted_files two_files) [] []) = [25, 50]"
    by (simp only: l)
  from progress_values [OF r, where files = two_files and mode = "''SAI''"] r j t
  show ?thesis by simp
qed


section \<open>Composer\<close>

text \<open>
  C6. On an empty collection of chunks the Composer, in any mode, passes nothing to the
  progress sink and returns the encoding of the waveform of duration zero; it raises
  nothing.
\<close>

theorem join_audio_empty:
  "join_audio P [] mode = ([], Inr (encode P ''mp3'' []))"
  by (simp add: join_audio_def sorted_files_def finish_def apply_gain_def)






section \<open>Row Pairer\<close>

lemma code_digit_char: "d < 10 \<Longrightarrow> code (digit_char d) = 48 + d"
proof -
  assume "d < 10"
  then consider "d = 0" | "d = 1" | "d = 2" | "d = 3" | "d = 4" | "d = 5" | "d = 6" | "d = 7"
    | "d = 8" | "d = 9"
    by atomize_elim presburger
  then show ?thesis
    by cases (simp_all add: code_def digit_char_def)
qed

lemma int_of_digits_snoc: "int_of_digits (ds @ [c]) = 10 * int_of_digits ds + (code c - 48)"
  by (simp add: int_of_digits_def)

text \<open>The decimal string of a number reads back as the number.\<close>

lemma int_of_digits_str_nat: "int_of_digits (str_nat n) = n"
proof (induction n rule: str_nat.induct)
  case (1 n)
  show ?case
  proof (cases "n < 10")
    case True
    then have "str_nat n = [digit_char n]" by (simp add: str_nat.simps)
    with True show ?thesis
      by (simp add: int_of_digits_def code_digit_char)
  next
    case False
    then have s: "str_nat n = str_nat (n div 10) @ [digit_char (n mod 10)]"
      by (subst str_nat.simps) simp
    from False "1.IH" have "int_of_digits (str_nat (n div 10)) = n div 10" by simp
    then show ?thesis
      by (simp add: s int_of_digits_snoc code_digit_char)
  qed
qed

lemma str_nat_digits: "list_all is_digit (str_nat n)"
proof (induction n rule: str_nat.induct)
  case (1 n)
  have d: "\<And>d. d < 10 \<Longrightarrow> is_digit (digit_char d)"
    by (simp add: is_digit_def code_digit_char)
  show ?case
  proof (cases "n < 10")
    case True
    then have "str_nat n = [digit_char n]" by (simp add: str_nat.simps)
    with True d show ?thesis by simp
  next
    case False
    then have s: "str_nat n = str_nat (n div 10) @ [digit_char (n mod 10)]"
      by (subst str_nat.simps) simp
    from False "1.IH" have "list_all is_digit (str_nat (n div 10))" by simp
    then show ?thesis
      by (simp add: s d)
  qed
qed

text \<open>
  C7. When the number of rows differs from the number of files, the Row Pairer raises
  the error whose message holds both counts in decimal, each of which reads back as the
  count, and before that it has written no row and reported no progress. When the
  numbers agree it returns the rows in their original order, each with one more field:
  the sound reference to the file at the same position of the numerically sorted files.
\<close>

theorem row_pairing:
  "(length rows \<noteq> length files \<longrightarrow>
      generate_anki_csv rnd rows files =
        ([], Inl (ValueError (''Row count ('' @ str_nat (length rows) @
                              '') != file count ('' @ str_nat (length files) @ '')''))))
   \<and> (length rows = length files \<longrightarrow>
      snd (generate_anki_csv rnd rows files) =
        Inr (map2 (\<lambda>row f. row @ [''[sound:'' @ name f @ '']'']) rows (sorted_files files)))
   \<and> int_of_digits (str_nat (length rows)) = length rows
   \<and> int_of_digits (str_nat (length files)) = length files"
proof (intro conjI impI)
  assume "length rows \<noteq> length files"
  then show "generate_anki_csv rnd rows files =
        ([], Inl (ValueError (''Row count ('' @ str_nat (length rows) @
                              '') != file count ('' @ str_nat (length files) @ '')'')))"
    by (simp add: generate_anki_csv_def Let_def sorted_files_def mismatch_message_def)
next
  assume "length rows = length files"
  then show "snd (generate_anki_csv rnd rows files) =
        Inr (map2 (\<lambda>row f. row @ [''[sound:'' @ name f @ '']'']) rows (sorted_files files))"
    by (simp add: generate_anki_csv_equal sound_tag_def)
next
  show "int_of_digits (str_nat (length rows)) = length rows"
    by (rule int_of_digits_str_nat)
next
  show "int_of_digits (str_nat (length files)) = length files"
    by (rule int_of_digits_str_nat)
qed

theorem row_pairing_witness:
  "length [[''a'', ''b''], [''c'', ''d''], [''e'', ''f'']] \<noteq> length [named ''2-x'', named ''1-y'']
   \<and> generate_anki_csv (\<lambda>x. x) [[''a'', ''b''], [''c'', ''d''], [''e'', ''f'']]
         [named ''2-x'', named ''1-y'']
       = ([], Inl (ValueError ''Row count (3) != file count (2)''))
   \<and> length [[''a'', ''b''], [''c'', ''d'']] = length [named ''2-x'', named ''1-y'']
   \<and> snd (generate_anki_csv (\<lambda>x. x) [[''a'', ''b''], [''c'', ''d'']] [named ''2-x'', named ''1-y''])
       = Inr [[''a'', ''b'', ''[sound:1-y]''], [''c'', ''d'', ''[sound:2-x]'']]"
proof -
  have k: "key (named ''2-x'') = 2" "key (named ''1-y'') = 1"
    by (simp_all add: key_def named_def re_search_digits_def is_digit_def code_def
          int_of_digits_def numeral_eq_enat one_enat_def)
  have srt: "sorted_files [named ''2-x'', named ''1-y''] = [named ''1-y'', named ''2-x'']"
    by (simp add: sorted_files_def k)
  have s: "str_nat (Suc (Suc (Suc 0))) = ''3''" "str_nat (Suc (Suc 0)) = ''2''"
    by (simp_all add: str_nat.simps digit_char_def)
  from row_pairing [of "[[''a'', ''b''], [''c'', ''d''], [''e'', ''f'']]"
      "[named ''2-x'', named ''1-y'']" "\<lambda>x. x"]
    row_pairing [of "[[''a'', ''b''], [''c'', ''d'']]" "[named ''2-x'', named ''1-y'']" "\<lambda>x. x"]
  show ?thesis
    by (simp add: srt s) (simp add: named_def)
qed


section \<open>Loudness Normalizer\<close>

lemma normalize_audio_done:
  assumes "decode P '''' b = Some audio"
    and "loudnorm P lufs peak (encode P ''wav'' audio) = Some wav_out"
    and "decode P ''wav'' wav_out = Some norm_audio"
  shows "normalize_audio P b lufs peak = ([10, 20, 70, 100], [], Inr (encode P ''mp3'' norm_audio))"
  using assms by (simp add: normalize_audio_def unlink_def)

lemma normalize_audio_undecodable_output:
  assumes "decode P '''' b = Some audio"
    and "loudnorm P lufs peak (encode P ''wav'' audio) = Some wav_out"
    and "decode P ''wav'' wav_out = None"
  shows "normalize_audio P b lufs peak = ([10, 20, 70], [TmpIn, TmpOut], Inl CouldntDecodeError)"
  using assms by (simp add: normalize_audio_def)

text \<open>
  C8 does not hold of the code. When the input decodes and the loudness tool exits with
  a non-zero status, \<^verbatim>\<open>subprocess.run\<close> raises before the two \<^verbatim>\<open>os.unlink\<close>
  calls that end the function, and both temporary files are left behind.
\<close>

theorem tool_failure_leaves_temporary_files:
  assumes "decode P '''' b = Some audio"
    and "loudnorm P lufs peak (encode P ''wav'' audio) = None"
  shows "normalize_audio P b lufs peak = ([10, 20], [TmpIn, TmpOut], Inl CalledProcessError)"
  using assms by (simp add: normalize_audio_def)

theorem tool_failure_leaves_temporary_files_witness:
  "decode demo '''' [60, 70] = Some [60, 70]
   \<and> loudnorm demo 0 (- 3) (encode demo ''wav'' [60, 70]) = None
   \<and> normalize_audio demo [60, 70] 0 (- 3) = ([10, 20], [TmpIn, TmpOut], Inl CalledProcessError)"
proof -
  have d: "decode demo '''' [60, 70] = Some [60, 70]"
    by (simp add: demo_simps)
  have t: "loudnorm demo 0 (- 3) (encode demo ''wav'' [60, 70]) = None"
    by (simp add: demo_simps)
  from tool_failure_leaves_temporary_files [OF d t] d t show ?thesis by simp
qed

section \<open>Silence analysis and Trimmer\<close>

lemma combine_ranges_Cons:
  "combine_ranges msl cur prev (i # rest) =
     (if breaks msl prev i then (cur, prev + msl) # combine_ranges msl i i rest
      else combine_ranges msl cur i rest)"
  by (simp add: breaks_def)

lemma combine_ranges_nonempty: "combine_ranges msl cur prev rest \<noteq> []"
  by (induction rest arbitrary: cur prev) (simp_all del: combine_ranges.simps(2) add: combine_ranges_Cons)

lemma combine_ranges_first:
  "hd (combine_ranges msl cur prev rest) = (cur, first_end msl prev rest + msl)"
  by (induction rest arbitrary: prev) (simp_all del: combine_ranges.simps(2) add: combine_ranges_Cons)

lemma combine_ranges_last:
  "last (combine_ranges msl cur prev rest) = (last_start msl cur prev rest, last (prev # rest) + msl)"
  by (induction rest arbitrary: cur prev)
     (simp_all del: combine_ranges.simps(2) add: combine_ranges_Cons combine_ranges_nonempty)

lemma first_end_ge: "sorted (p # xs) \<Longrightarrow> p \<le> first_end msl p xs"
proof (induction xs arbitrary: p)
  case Nil
  then show ?case by simp
next
  case (Cons x xs)
  then have "x \<le> first_end msl x xs" by simp
  moreover from Cons.prems have "p \<le> x" by simp
  ultimately show ?case by simp
qed

lemma first_end_skip:
  "sorted_wrt (<) (p # pre @ a # rest) \<Longrightarrow> a \<le> first_end msl p (pre @ a # rest) \<Longrightarrow>
   first_end msl p (pre @ a # rest) = first_end msl a rest"
proof (induction pre arbitrary: p)
  case Nil
  then show ?case by (cases "breaks msl p a") simp_all
next
  case (Cons x pre)
  from Cons.prems(1) have lt: "p < a" by simp
  show ?case
  proof (cases "breaks msl p x")
    case True
    with Cons.prems(2) lt show ?thesis by simp
  next
    case False
    with Cons.prems have "a \<le> first_end msl x (pre @ a # rest)" by simp
    moreover from Cons.prems(1) have "sorted_wrt (<) (x # pre @ a # rest)" by simp
    ultimately have "first_end msl x (pre @ a # rest) = first_end msl a rest"
      by (rule Cons.IH [rotated])
    with False show ?thesis by simp
  qed
qed

lemma first_end_prefix:
  "sorted (a # xs @ ys) \<Longrightarrow> first_end msl a xs \<le> first_end msl a (xs @ ys)"
proof (induction xs arbitrary: a)
  case Nil
  then show ?case by (simp add: first_end_ge)
next
  case (Cons x xs)
  from Cons.prems have "sorted (x # xs @ ys)" by simp
  then have "first_end msl x xs \<le> first_end msl x (xs @ ys)" by (rule Cons.IH)
  then show ?case by simp
qed

lemma breaks_shift:
  "a \<le> p \<Longrightarrow> a \<le> x \<Longrightarrow> breaks msl (p - a) (x - a) = breaks msl p x"
  by (auto simp: breaks_def)

lemma first_end_shift:
  "a \<le> p \<Longrightarrow> \<forall>x \<in> set xs. a \<le> x \<Longrightarrow>
   first_end msl (p - a) (map (\<lambda>i. i - a) xs) = first_end msl p xs - a"
proof (induction xs arbitrary: p)
  case Nil
  then show ?case by simp
next
  case (Cons x xs)
  from Cons.prems have ax: "a \<le> x" by simp
  have "first_end msl (x - a) (map (\<lambda>i. i - a) xs) = first_end msl x xs - a"
    using ax Cons.prems by (intro Cons.IH) simp_all
  with breaks_shift [OF Cons.prems(1) ax] show ?case by simp
qed

lemma last_start_cases:
  "last_start msl cur prev ys = cur \<or> last_start msl cur prev ys \<in> set ys"
proof (induction ys arbitrary: cur prev)
  case Nil
  then show ?case by simp
next
  case (Cons y ys)
  from Cons.IH [of y y] Cons.IH [of cur y] show ?case by auto
qed

lemma last_start_append:
  "last_start msl cur prev (xs @ ys) = last_start msl cur prev xs
   \<or> last_start msl cur prev (xs @ ys) \<in> set ys"
proof (induction xs arbitrary: cur prev)
  case Nil
  then show ?case using last_start_cases [of msl cur prev ys] by simp
next
  case (Cons x xs)
  from Cons.IH [of x x] Cons.IH [of cur x] show ?case by simp
qed

lemma last_start_mono:
  "cur \<le> cur' \<Longrightarrow> last_start msl cur prev ys \<le> last_start msl cur' prev ys"
  by (induction ys arbitrary: cur cur' prev) simp_all

lemma last_start_suffix:
  "sorted (prev # xs @ y # ys) \<Longrightarrow> cur \<le> prev \<Longrightarrow>
   last_start msl cur prev (xs @ y # ys) \<le> last_start msl y y ys"
proof (induction xs arbitrary: cur prev)
  case Nil
  then have "cur \<le> y" by simp
  then have "last_start msl cur y ys \<le> last_start msl y y ys"
    by (rule last_start_mono)
  then show ?case by simp
next
  case (Cons x xs)
  from Cons.prems have s: "sorted (x # xs @ y # ys)" and cx: "cur \<le> x" by simp_all
  from Cons.IH [OF s, of x] Cons.IH [OF s cx] show ?case by simp
qed

lemma last_start_shift:
  "a \<le> cur \<Longrightarrow> a \<le> prev \<Longrightarrow> \<forall>x \<in> set xs. a \<le> x \<Longrightarrow>
   last_start msl (cur - a) (prev - a) (map (\<lambda>i. i - a) xs) = last_start msl cur prev xs - a"
proof (induction xs arbitrary: cur prev)
  case Nil
  then show ?case by simp
next
  case (Cons x xs)
  from Cons.prems have ax: "a \<le> x" by simp
  have 1: "last_start msl (x - a) (x - a) (map (\<lambda>i. i - a) xs) = last_start msl x x xs - a"
    using ax Cons.prems by (intro Cons.IH) simp_all
  have 2: "last_start msl (cur - a) (x - a) (map (\<lambda>i. i - a) xs) = last_start msl cur x xs - a"
    using ax Cons.prems by (intro Cons.IH) simp_all
  from breaks_shift [OF Cons.prems(2) ax] 1 2 show ?case by simp
qed


lemma gap_last:
  "R \<noteq> [] \<Longrightarrow> snd (last (map2 (\<lambda>prev_end r. (prev_end, fst r)) (p # map snd R) R)) = fst (last R)"
proof (induction R arbitrary: p)
  case Nil
  then show ?case by simp
next
  case (Cons r R)
  show ?case
  proof (cases "R = []")
    case True
    then show ?thesis by simp
  next
    case False
    with Cons.IH [OF False, of "snd r"] show ?thesis
      by (cases R) simp_all
  qed
qed

text \<open>The first start and the last end of the non-silent ranges, from the silent ranges.\<close>

lemma detect_nonsilent_ends:
  assumes "detect_nonsilent q msl w \<noteq> []"
  shows "fst (hd (detect_nonsilent q msl w)) =
           (if detect_silence q msl w = [] then 0
            else if fst (hd (detect_silence q msl w)) = 0 then snd (hd (detect_silence q msl w))
            else 0)"
    and "snd (last (detect_nonsilent q msl w)) =
           (if detect_silence q msl w = [] then length w
            else if snd (last (detect_silence q msl w)) = length w
                 then fst (last (detect_silence q msl w))
            else length w)"
proof -
  let ?R = "detect_silence q msl w"
  let ?N = "detect_nonsilent q msl w"
  let ?f = "\<lambda>prev_end r. (prev_end, fst (r :: nat \<times> nat))"
  show "fst (hd ?N) = (if ?R = [] then 0 else if fst (hd ?R) = 0 then snd (hd ?R) else 0)"
  proof (cases ?R)
    case Nil
    then show ?thesis by (simp add: detect_nonsilent_def)
  next
    case (Cons r R')
    with assms have ne: "\<not> (fst r = 0 \<and> snd r = length w)"
      by (auto simp: detect_nonsilent_def)
    show ?thesis
    proof (cases R')
      case Nil
      with Cons ne show ?thesis
        by (cases r) (auto simp: detect_nonsilent_def Let_def)
    next
      case (Cons r2 R'')
      with \<open>?R = r # R'\<close> ne show ?thesis
        by (cases r) (auto simp: detect_nonsilent_def Let_def)
    qed
  qed
  show "snd (last ?N) = (if ?R = [] then length w
            else if snd (last ?R) = length w then fst (last ?R) else length w)"
  proof (cases ?R)
    case Nil
    then show ?thesis by (simp add: detect_nonsilent_def)
  next
    case (Cons r R')
    with assms have ne: "\<not> (fst r = 0 \<and> snd r = length w)"
      by (auto simp: detect_nonsilent_def)
    let ?g = "map2 ?f (0 # map snd ?R) ?R"
    have g: "?g = (0, fst r) # map2 ?f (snd r # map snd R') R'"
      using Cons by simp
    have gl: "snd (last ?g) = fst (last ?R)"
      using Cons by (intro gap_last) simp
    show ?thesis
    proof (cases "snd (last ?R) = length w")
      case True
      have N: "?N = (if fst r = 0 then tl ?g else ?g)"
        using Cons True ne g by (auto simp: detect_nonsilent_def Let_def)
      show ?thesis
      proof (cases "fst r = 0")
        case False
        with N gl True Cons show ?thesis by simp
      next
        case z: True
        with N assms have "tl ?g \<noteq> []" by simp
        then have "last (tl ?g) = last ?g"
          by (metis last_tl list.sel(2))
        with N z gl True Cons show ?thesis by simp
      qed
    next
      case False
      have N: "?N = (if fst r = 0 then tl (?g @ [(snd (last ?R), length w)])
                     else ?g @ [(snd (last ?R), length w)])"
        using Cons False ne g by (auto simp: detect_nonsilent_def Let_def)
      have "tl (?g @ [(snd (last ?R), length w)]) = tl ?g @ [(snd (last ?R), length w)]"
        using g by simp
      with N False Cons show ?thesis by simp
    qed
  qed
qed

lemma silence_starts_sorted: "sorted_wrt (<) (silence_starts q msl w)"
  unfolding silence_starts_def by (intro sorted_wrt_filter) (simp del: upt_Suc)

lemma silence_starts_bound:
  "i \<in> set (silence_starts q msl w) \<Longrightarrow> msl \<le> length w \<Longrightarrow> i + msl \<le> length w"
  by (auto simp: silence_starts_def simp del: upt_Suc)

lemma slice_take_drop:
  "a \<le> b \<Longrightarrow> b \<le> length w \<Longrightarrow> slice w a b = take (b - a) (drop a w)"
  by (simp add: slice_def Let_def min_def)

lemma slice_length:
  "a \<le> b \<Longrightarrow> b \<le> length w \<Longrightarrow> length (slice w a b) = b - a"
  by (simp add: slice_take_drop)

lemma slice_slice:
  assumes "a \<le> b" "b \<le> length w" "j + msl \<le> b - a"
  shows "slice (slice w a b) j (j + msl) = slice w (a + j) (a + j + msl)"
proof -
  have "slice (slice w a b) j (j + msl) = take msl (drop j (take (b - a) (drop a w)))"
    using assms by (simp add: slice_take_drop slice_length)
  also have "\<dots> = take msl (take (b - a - j) (drop j (drop a w)))"
    by (simp add: drop_take)
  also have "\<dots> = take msl (drop (a + j) w)"
    using assms by (simp add: min_def add.commute)
  also have "\<dots> = slice w (a + j) (a + j + msl)"
    using assms by (simp add: slice_take_drop)
  finally show ?thesis .
qed

lemma upt_split3:
  assumes "a \<le> c" "c \<le> k"
  shows "[0 ..< k] = [0 ..< a] @ [a ..< c] @ [c ..< k]"
proof -
  have "[0 ..< c + (k - c)] = [0 ..< c] @ [c ..< c + (k - c)]"
    by (rule upt_add_eq_append) simp
  moreover have "[0 ..< a + (c - a)] = [0 ..< a] @ [a ..< a + (c - a)]"
    by (rule upt_add_eq_append) simp
  ultimately show ?thesis using assms by simp
qed

text \<open>The silent windows of a slice are the silent windows of the waveform inside it.\<close>

lemma silence_starts_slice:
  assumes "a \<le> b" "b \<le> length w" "msl \<le> b - a"
  shows "\<exists>pre mid post. silence_starts q msl w = pre @ mid @ post
           \<and> silence_starts q msl (slice w a b) = map (\<lambda>i. i - a) mid
           \<and> (\<forall>x \<in> set pre. x < a) \<and> (\<forall>x \<in> set mid. a \<le> x \<and> x + msl \<le> b)
           \<and> (\<forall>x \<in> set post. b < x + msl)"
proof -
  let ?qi = "\<lambda>i. q (slice w i (i + msl))"
  let ?pre = "filter ?qi [0 ..< a]"
  let ?mid = "filter ?qi [a ..< b - msl + 1]"
  let ?post = "filter ?qi [b - msl + 1 ..< length w - msl + 1]"
  have "a \<le> b - msl + 1" "b - msl + 1 \<le> length w - msl + 1"
    using assms by simp_all
  then have "[0 ..< length w - msl + 1] = [0 ..< a] @ [a ..< b - msl + 1] @ [b - msl + 1 ..< length w - msl + 1]"
    by (rule upt_split3)
  then have S: "silence_starts q msl w = ?pre @ ?mid @ ?post"
    by (simp add: silence_starts_def del: upt_Suc)
  have len: "length (slice w a b) = b - a"
    using assms by (simp add: slice_length)
  have "silence_starts q msl (slice w a b)
      = filter (\<lambda>j. q (slice (slice w a b) j (j + msl))) [0 ..< b - a - msl + 1]"
    by (simp add: silence_starts_def len del: upt_Suc)
  also have "\<dots> = filter (\<lambda>j. ?qi (a + j)) [0 ..< b - a - msl + 1]"
  proof (rule filter_cong [OF refl])
    fix j assume "j \<in> set [0 ..< b - a - msl + 1]"
    then have "j + msl \<le> b - a" using assms by auto
    then show "q (slice (slice w a b) j (j + msl)) = ?qi (a + j)"
      using assms by (simp add: slice_slice add.assoc)
  qed
  also have "\<dots> = map (\<lambda>i. i - a) (filter ?qi (map (\<lambda>j. a + j) [0 ..< b - a - msl + 1]))"
    by (simp add: filter_map comp_def del: upt_Suc)
  also have "map (\<lambda>j. a + j) [0 ..< b - a - msl + 1] = [a ..< b - msl + 1]"
    using assms by (simp add: map_add_upt add.commute del: upt_Suc)
  finally have T: "silence_starts q msl (slice w a b) = map (\<lambda>i. i - a) ?mid" .
  have "\<forall>x \<in> set ?pre. x < a" by simp
  moreover have "\<forall>x \<in> set ?mid. a \<le> x \<and> x + msl \<le> b" using assms by auto
  moreover have "\<forall>x \<in> set ?post. b < x + msl" by auto
  ultimately show ?thesis using S T by blast
qed

text \<open>
  The first range of silent windows that starts at the first window stays within the
  guard when the waveform is cut \<open>guard\<close> before its end.
\<close>

lemma first_chain_within_guard:
  assumes srt: "sorted_wrt (<) (pre @ (a # mid) @ post)"
    and F: "F = (if hd (pre @ (a # mid) @ post) = 0
                 then first_end msl (hd (pre @ (a # mid) @ post)) (tl (pre @ (a # mid) @ post)) + msl
                 else 0)"
    and a: "a = F - guard"
    and msl: "msl \<le> guard"
  shows "first_end msl a mid + msl \<le> a + guard"
proof (cases "hd (pre @ (a # mid) @ post) = 0")
  case False
  with F a have "a = 0" by simp
  with srt have "pre = []" by (cases pre) auto
  with False \<open>a = 0\<close> show ?thesis by simp
next
  case True
  let ?S = "pre @ (a # mid) @ post"
  let ?c = "first_end msl (hd ?S) (tl ?S)"
  from True F have Fc: "F = ?c + msl" by simp
  with a msl have ac: "a \<le> ?c" by simp
  have c: "?c = first_end msl a (mid @ post)"
  proof (cases pre)
    case Nil
    then show ?thesis by simp
  next
    case (Cons p pre')
    with srt have "sorted_wrt (<) (p # pre' @ a # (mid @ post))" by simp
    moreover from ac Cons have "a \<le> first_end msl p (pre' @ a # (mid @ post))" by simp
    ultimately have "first_end msl p (pre' @ a # (mid @ post)) = first_end msl a (mid @ post)"
      by (rule first_end_skip)
    with Cons show ?thesis by simp
  qed
  from srt have "sorted_wrt (<) (a # mid @ post)"
    by (simp add: sorted_wrt_append)
  then have "sorted (a # mid @ post)"
    by (rule sorted_wrt_mono_rel [rotated]) simp
  then have "first_end msl a mid \<le> first_end msl a (mid @ post)"
    by (rule first_end_prefix)
  with c have "first_end msl a mid + msl \<le> F" using Fc by simp
  also have "F \<le> a + guard" using a by simp
  finally show ?thesis .
qed

text \<open>
  The last range of silent windows that ends with the last window begins within the
  guard of the end when the waveform is cut \<open>guard\<close> after its start.
\<close>

lemma last_chain_within_guard:
  assumes srt: "sorted_wrt (<) (pre @ (y # ys) @ post)"
    and bound: "\<forall>x \<in> set (pre @ (y # ys) @ post). x + msl \<le> n"
    and L: "L = (if last (pre @ (y # ys) @ post) + msl = n
                 then last_start msl (hd (pre @ (y # ys) @ post)) (hd (pre @ (y # ys) @ post))
                        (tl (pre @ (y # ys) @ post))
                 else n)"
    and b: "b = min n (L + guard)"
    and lastmid: "last (y # ys) + msl = b"
    and msl: "msl \<le> guard"
  shows "b \<le> last_start msl y y ys + guard"
proof -
  let ?S = "pre @ (y # ys) @ post"
  have post_gt: "\<forall>x \<in> set post. last (y # ys) < x"
    using srt by (auto simp: sorted_wrt_append)
  show ?thesis
  proof (cases "last ?S + msl = n")
    case False
    with L b have bn: "b = n" by simp
    have "post = []"
    proof (rule ccontr)
      assume "post \<noteq> []"
      then have "last post \<in> set post" by simp
      with post_gt have "last (y # ys) < last post" by blast
      moreover from \<open>last post \<in> set post\<close> bound have "last post + msl \<le> n" by simp
      ultimately show False using lastmid bn by simp
    qed
    then have "last ?S = last (y # ys)" by simp
    with False lastmid bn show ?thesis by simp
  next
    case True
    let ?ls = "last_start msl (hd ?S) (hd ?S) (tl ?S)"
    from True L have Ll: "L = ?ls" by simp
    with b have ble: "b \<le> ?ls + guard" by simp
    obtain h xs where hx: "pre @ (y # ys) = h # xs"
      by (cases "pre @ (y # ys)") auto
    have ls: "?ls = last_start msl h h (xs @ post)"
      using hx by (cases pre) auto
    have not_post: "?ls \<notin> set post"
    proof
      assume in_post: "?ls \<in> set post"
      with post_gt have gt: "last (y # ys) < ?ls" by blast
      from in_post bound have "?ls + msl \<le> n" by simp
      with gt lastmid have "b < n" by simp
      with b Ll have "b = ?ls + guard" by simp
      with lastmid gt msl show False by simp
    qed
    from last_start_append [of msl h h xs post] ls not_post
    have eq: "?ls = last_start msl h h xs" by simp
    have "last_start msl h h xs \<le> last_start msl y y ys"
    proof (cases pre)
      case Nil
      with hx show ?thesis by simp
    next
      case (Cons p pre')
      with hx have h: "h = p" and xs: "xs = pre' @ y # ys" by simp_all
      from srt Cons have "sorted_wrt (<) (p # pre' @ y # ys)"
        by (auto simp: sorted_wrt_append)
      then have "sorted (p # pre' @ y # ys)"
        by (rule sorted_wrt_mono_rel [rotated]) simp
      then have "last_start msl p p (pre' @ y # ys) \<le> last_start msl y y ys"
        by (rule last_start_suffix) simp
      with h xs show ?thesis by simp
    qed
    with eq ble show ?thesis by simp
  qed
qed

lemma detect_nonsilent_whole:
  assumes "length w < msl \<or> silence_starts q msl w = []"
  shows "detect_nonsilent q msl w = [(0, length w)]"
proof -
  from assms have "detect_silence q msl w = []"
    by (auto simp: detect_silence_def)
  then show ?thesis
    by (simp add: detect_nonsilent_def)
qed

lemma detect_nonsilent_first_last:
  assumes "detect_nonsilent q msl w \<noteq> []" "msl \<le> length w" "silence_starts q msl w = p # ps"
  shows "fst (hd (detect_nonsilent q msl w)) = (if p = 0 then first_end msl p ps + msl else 0)"
    and "snd (last (detect_nonsilent q msl w)) =
           (if last (p # ps) + msl = length w then last_start msl p p ps else length w)"
proof -
  have R: "detect_silence q msl w = combine_ranges msl p p ps"
    using assms(2,3) by (simp add: detect_silence_def)
  then have ne: "detect_silence q msl w \<noteq> []"
    by (simp add: combine_ranges_nonempty)
  show "fst (hd (detect_nonsilent q msl w)) = (if p = 0 then first_end msl p ps + msl else 0)"
    using detect_nonsilent_ends(1) [OF assms(1)] ne
    by (simp add: R combine_ranges_first)
  show "snd (last (detect_nonsilent q msl w)) =
           (if last (p # ps) + msl = length w then last_start msl p p ps else length w)"
    using detect_nonsilent_ends(2) [OF assms(1)] ne
    by (simp add: R combine_ranges_last)
qed

text \<open>
  After a cut to the first non-silent start less the guard and the last non-silent end
  plus the guard, the analysis of what is left finds its first start within the guard
  of the beginning and its last end within the guard of the end.
\<close>

lemma trimmed_within_guard:
  assumes msl: "msl \<le> guard"
    and N: "detect_nonsilent q msl w \<noteq> []"
    and a: "a = fst (hd (detect_nonsilent q msl w)) - guard"
    and b: "b = min (length w) (snd (last (detect_nonsilent q msl w)) + guard)"
    and ab: "a \<le> b"
    and N': "detect_nonsilent q msl (slice w a b) \<noteq> []"
  shows "fst (hd (detect_nonsilent q msl (slice w a b))) \<le> guard"
    and "length (slice w a b) \<le> snd (last (detect_nonsilent q msl (slice w a b))) + guard"
proof -
  let ?T = "slice w a b"
  from b have bn: "b \<le> length w" by simp
  have len: "length ?T = b - a"
    using ab bn by (rule slice_length)
  have "fst (hd (detect_nonsilent q msl ?T)) \<le> guard
        \<and> length ?T \<le> snd (last (detect_nonsilent q msl ?T)) + guard"
  proof (cases "length ?T < msl \<or> silence_starts q msl ?T = []")
    case True
    then have "detect_nonsilent q msl ?T = [(0, length ?T)]"
      by (rule detect_nonsilent_whole)
    then show ?thesis by simp
  next
    case False
    with len have m: "msl \<le> b - a" and ne: "silence_starts q msl ?T \<noteq> []" by simp_all
    from silence_starts_slice [OF ab bn m, of q]
    obtain pre mid post where S: "silence_starts q msl w = pre @ mid @ post"
      and T: "silence_starts q msl ?T = map (\<lambda>i. i - a) mid"
      and mid: "\<forall>x \<in> set mid. a \<le> x \<and> x + msl \<le> b"
      by blast
    from ne T obtain y ys where yys: "mid = y # ys" by (cases mid) auto
    from mid yys have ay: "a \<le> y" and ays: "\<forall>x \<in> set ys. a \<le> x" by simp_all
    from m bn have mw: "msl \<le> length w" by simp
    have mT: "msl \<le> length ?T" using m len by simp
    have srt: "sorted_wrt (<) (pre @ (y # ys) @ post)"
      using silence_starts_sorted [of q msl w] S yys by simp
    have bound: "\<forall>x \<in> set (pre @ (y # ys) @ post). x + msl \<le> length w"
      using silence_starts_bound [of _ q msl w] mw S yys by auto
    obtain p ps where pps: "silence_starts q msl w = p # ps"
      using S yys by (cases pre) auto
    then have hd_tl: "hd (pre @ (y # ys) @ post) = p" "tl (pre @ (y # ys) @ post) = ps"
      "last (pre @ (y # ys) @ post) = last (p # ps)"
      using S yys by simp_all
    have T': "silence_starts q msl ?T = (y - a) # map (\<lambda>i. i - a) ys"
      using T yys by simp
    have F: "fst (hd (detect_nonsilent q msl w)) =
               (if hd (pre @ (y # ys) @ post) = 0
                then first_end msl (hd (pre @ (y # ys) @ post)) (tl (pre @ (y # ys) @ post)) + msl
                else 0)"
      using detect_nonsilent_first_last(1) [OF N mw pps] by (simp only: hd_tl)
    have L: "snd (last (detect_nonsilent q msl w)) =
               (if last (pre @ (y # ys) @ post) + msl = length w
                then last_start msl (hd (pre @ (y # ys) @ post)) (hd (pre @ (y # ys) @ post))
                       (tl (pre @ (y # ys) @ post))
                else length w)"
      using detect_nonsilent_first_last(2) [OF N mw pps] by (simp only: hd_tl)
    have first: "fst (hd (detect_nonsilent q msl ?T)) \<le> guard"
    proof (cases "y - a = 0")
      case False
      with detect_nonsilent_first_last(1) [OF N' mT T'] show ?thesis by simp
    next
      case True
      with ay have ya: "y = a" by simp
      have "first_end msl a ys + msl \<le> a + guard"
        using srt F a msl unfolding ya by (rule first_chain_within_guard)
      moreover have "first_end msl (a - a) (map (\<lambda>i. i - a) ys) = first_end msl a ys - a"
        using ays by (intro first_end_shift) simp_all
      ultimately have "first_end msl (y - a) (map (\<lambda>i. i - a) ys) + msl \<le> guard"
        using ya msl by simp
      with detect_nonsilent_first_last(1) [OF N' mT T'] True show ?thesis by simp
    qed
    have last: "length ?T \<le> snd (last (detect_nonsilent q msl ?T)) + guard"
    proof (cases "last ((y - a) # map (\<lambda>i. i - a) ys) + msl = length ?T")
      case False
      with detect_nonsilent_first_last(2) [OF N' mT T'] show ?thesis by simp
    next
      case True
      have "last ((y - a) # map (\<lambda>i. i - a) ys) = last (y # ys) - a"
        by (simp add: last_map)
      moreover have "a \<le> last (y # ys)"
        using ay ays by (metis last_in_set list.discI set_ConsD)
      ultimately have lm: "last (y # ys) + msl = b"
        using True len ab by simp
      have "b \<le> last_start msl y y ys + guard"
        using srt bound L b lm msl by (rule last_chain_within_guard)
      moreover have "last_start msl (y - a) (y - a) (map (\<lambda>i. i - a) ys) = last_start msl y y ys - a"
        using ay ays by (intro last_start_shift) simp_all
      ultimately have "b - a \<le> last_start msl (y - a) (y - a) (map (\<lambda>i. i - a) ys) + guard"
        by simp
      with detect_nonsilent_first_last(2) [OF N' mT T'] True len show ?thesis by simp
    qed
    from first last show ?thesis ..
  qed
  then show "fst (hd (detect_nonsilent q msl ?T)) \<le> guard"
    and "length ?T \<le> snd (last (detect_nonsilent q msl ?T)) + guard"
    by simp_all
qed

lemma slice_all: "length w \<le> b \<Longrightarrow> slice w 0 b = w"
  by (simp add: slice_def)

text \<open>The silent ranges lie within the waveform, each at least \<open>msl\<close> long, in order.\<close>

lemma combine_ranges_wf:
  assumes "cur \<le> prev" "sorted_wrt (<) (prev # rest)" "\<forall>x \<in> set (prev # rest). x + msl \<le> n"
  shows "list_all (\<lambda>r. cur \<le> fst r \<and> fst r + msl \<le> snd r \<and> snd r \<le> n)
           (combine_ranges msl cur prev rest)
         \<and> successively (\<lambda>r r'. snd r < fst r') (combine_ranges msl cur prev rest)"
  using assms
proof (induction rest arbitrary: cur prev)
  case Nil
  then show ?case by simp
next
  case (Cons i rest)
  from Cons.prems have pi: "prev < i" and srt: "sorted_wrt (<) (i # rest)"
    and bnd: "\<forall>x \<in> set (i # rest). x + msl \<le> n" and pn: "prev + msl \<le> n"
    by simp_all
  show ?case
  proof (cases "breaks msl prev i")
    case True
    let ?R = "combine_ranges msl i i rest"
    from Cons.IH [OF le_refl srt bnd]
    have all: "list_all (\<lambda>r. i \<le> fst r \<and> fst r + msl \<le> snd r \<and> snd r \<le> n) ?R"
      and suc: "successively (\<lambda>r r'. snd r < fst r') ?R"
      by simp_all
    from all have "list_all (\<lambda>r. cur \<le> fst r \<and> fst r + msl \<le> snd r \<and> snd r \<le> n) ?R"
      using Cons.prems(1) pi by (auto simp: list_all_iff)
    moreover have "successively (\<lambda>r r'. snd r < fst r') ((cur, prev + msl) # ?R)"
      using suc True combine_ranges_first [of msl i i rest] combine_ranges_nonempty [of msl i i rest]
      by (simp add: successively_Cons breaks_def)
    ultimately show ?thesis
      using True Cons.prems(1) pn by (simp add: combine_ranges_Cons del: combine_ranges.simps(2))
  next
    case False
    from Cons.prems(1) pi have "cur \<le> i" by simp
    from Cons.IH [OF this srt bnd] False show ?thesis
      by (simp add: combine_ranges_Cons del: combine_ranges.simps(2))
  qed
qed

lemma detect_silence_wf:
  "list_all (\<lambda>r. fst r + msl \<le> snd r \<and> snd r \<le> length w) (detect_silence q msl w)
   \<and> successively (\<lambda>r r'. snd r < fst r') (detect_silence q msl w)"
proof (cases "length w < msl \<or> silence_starts q msl w = []")
  case True
  then have "detect_silence q msl w = []"
    by (auto simp: detect_silence_def)
  then show ?thesis by simp
next
  case False
  then obtain p ps where pps: "silence_starts q msl w = p # ps" and mw: "msl \<le> length w"
    by (cases "silence_starts q msl w") auto
  have R: "detect_silence q msl w = combine_ranges msl p p ps"
    using pps mw by (simp add: detect_silence_def)
  have "sorted_wrt (<) (p # ps)"
    using silence_starts_sorted [of q msl w] pps by simp
  moreover have "\<forall>x \<in> set (p # ps). x + msl \<le> length w"
    using silence_starts_bound [of _ q msl w] mw pps by auto
  ultimately have "list_all (\<lambda>r. p \<le> fst r \<and> fst r + msl \<le> snd r \<and> snd r \<le> length w)
           (combine_ranges msl p p ps)
         \<and> successively (\<lambda>r r'. snd r < fst r') (combine_ranges msl p p ps)"
    by (intro combine_ranges_wf) simp_all
  then show ?thesis
    unfolding R by (auto simp: list_all_iff)
qed

lemma gaps_wf:
  fixes R :: "(nat \<times> nat) list"
  assumes "list_all (\<lambda>r. fst r + msl \<le> snd r \<and> snd r \<le> n) R"
    and "successively (\<lambda>r r'. snd r < fst r') R"
    and "R \<noteq> [] \<longrightarrow> p0 \<le> fst (hd R)"
  shows "list_all (\<lambda>r. fst r \<le> snd r \<and> snd r \<le> n)
           (map2 (\<lambda>prev_end r. (prev_end, fst r)) (p0 # map snd R) R)
         \<and> successively (\<lambda>r r'. snd r + msl \<le> fst r')
             (map2 (\<lambda>prev_end r. (prev_end, fst r)) (p0 # map snd R) R)"
  using assms
proof (induction R arbitrary: p0)
  case Nil
  then show ?case by simp
next
  case (Cons r R)
  let ?f = "\<lambda>prev_end r. (prev_end, fst (r :: nat \<times> nat))"
  let ?G = "map2 ?f (snd r # map snd R) R"
  from Cons.prems have r: "fst r + msl \<le> snd r" "snd r \<le> n" "p0 \<le> fst r"
    and all: "list_all (\<lambda>r. fst r + msl \<le> snd r \<and> snd r \<le> n) R"
    and suc: "successively (\<lambda>r r'. snd r < fst r') R"
    and nxt: "R \<noteq> [] \<longrightarrow> snd r \<le> fst (hd R)"
    by (auto simp: successively_Cons)
  from Cons.IH [OF all suc nxt]
  have G: "list_all (\<lambda>r. fst r \<le> snd r \<and> snd r \<le> n) ?G"
    "successively (\<lambda>r r'. snd r + msl \<le> fst r') ?G"
    by simp_all
  have hdG: "?G \<noteq> [] \<longrightarrow> fst (hd ?G) = snd r"
    by (cases R) simp_all
  have "successively (\<lambda>r r'. snd r + msl \<le> fst r') ((p0, fst r) # ?G)"
    using G(2) hdG r(1) by (auto simp: successively_Cons)
  moreover have "list_all (\<lambda>r. fst r \<le> snd r \<and> snd r \<le> n) ((p0, fst r) # ?G)"
    using G(1) r by simp
  ultimately show ?case by simp
qed

text \<open>
  The non-silent ranges lie within the waveform, in chronological order, and two in
  succession are at least \<open>msl\<close> apart.
\<close>

lemma detect_nonsilent_wf:
  "list_all (\<lambda>r. fst r \<le> snd r \<and> snd r \<le> length w) (detect_nonsilent q msl w)
   \<and> successively (\<lambda>r r'. snd r + msl \<le> fst r') (detect_nonsilent q msl w)"
proof -
  let ?R = "detect_silence q msl w"
  let ?f = "\<lambda>prev_end r. (prev_end, fst (r :: nat \<times> nat))"
  let ?G = "map2 ?f (0 # map snd ?R) ?R"
  let ?ok = "\<lambda>N. list_all (\<lambda>r. fst r \<le> snd r \<and> snd r \<le> length w) N
                 \<and> successively (\<lambda>r r'. snd r + msl \<le> fst r') N"
  from detect_silence_wf [of msl w q]
  have all: "list_all (\<lambda>r. fst r + msl \<le> snd r \<and> snd r \<le> length w) ?R"
    and suc: "successively (\<lambda>r r'. snd r < fst r') ?R"
    by simp_all
  have G: "?ok ?G"
    using all suc by (intro gaps_wf) simp_all
  have tl_ok: "\<And>N. ?ok N \<Longrightarrow> ?ok (tl N)"
  proof -
    fix N assume "?ok N" then show "?ok (tl N)"
      by (cases N) (auto simp: successively_Cons)
  qed
  show ?thesis
  proof (cases "?R = []")
    case True
    then show ?thesis by (simp add: detect_nonsilent_def)
  next
    case False
    have lastG: "snd (last ?G) = fst (last ?R)"
      using False by (intro gap_last)
    have Gne: "?G \<noteq> []"
      using False by (cases ?R) simp_all
    let ?e = "(snd (last ?R), length w)"
    have lastR: "fst (last ?R) + msl \<le> snd (last ?R) \<and> snd (last ?R) \<le> length w"
      using all False by (simp add: list_all_iff)
    have G': "?ok (?G @ [?e])"
      using G lastG lastR Gne by (simp add: successively_append_iff)
    have "detect_nonsilent q msl w = []
          \<or> detect_nonsilent q msl w = ?G \<or> detect_nonsilent q msl w = tl ?G
          \<or> detect_nonsilent q msl w = ?G @ [?e] \<or> detect_nonsilent q msl w = tl (?G @ [?e])"
      using False by (simp add: detect_nonsilent_def Let_def)
    with G G' tl_ok [OF G] tl_ok [OF G'] show ?thesis
      by (elim disjE) simp_all
  qed
qed

lemma ranges_first_le_last:
  fixes N :: "(nat \<times> nat) list"
  assumes "list_all (\<lambda>r. fst r \<le> snd r \<and> snd r \<le> n) N"
    and "successively (\<lambda>r r'. snd r + msl \<le> fst r') N" and "N \<noteq> []"
  shows "fst (hd N) \<le> snd (last N)"
  using assms
proof (induction N)
  case Nil
  then show ?case by simp
next
  case (Cons r N)
  show ?case
  proof (cases "N = []")
    case True
    with Cons.prems show ?thesis by simp
  next
    case False
    with Cons.prems have "fst (hd N) \<le> snd (last N)"
      by (intro Cons.IH) (simp_all add: successively_Cons)
    moreover from Cons.prems False have "fst r \<le> snd r" "snd r + msl \<le> fst (hd N)"
      by (simp_all add: successively_Cons)
    ultimately show ?thesis using False by simp
  qed
qed

text \<open>
  C5. When the analysis of a waveform finds no non-silent range, the Trimmer returns the
  waveform as it is. Otherwise it returns the frames from position \<open>a\<close> up to position
  \<open>b\<close>, where \<open>a\<close> is the first start less 100 ms and \<open>b\<close> the last end plus 100
  ms, both cut down to the range from 0 to the duration; and \<open>a\<close> is not after \<open>b\<close>.
\<close>

theorem trimmer_span:
  "(let N = detect_nonsilent (quiet P (- 40)) 25 w;
        a = clamp (length w) (int (fst (hd N)) - 100);
        b = clamp (length w) (int (snd (last N)) + 100)
    in if N = [] then trim P w = w
       else trim P w = take (b - a) (drop a w) \<and> a \<le> b \<and> length (trim P w) = b - a)"
proof (cases "detect_nonsilent (quiet P (- 40)) 25 w = []")
  case True
  then show ?thesis by (simp add: trim_def Let_def)
next
  case False
  let ?N = "detect_nonsilent (quiet P (- 40)) 25 w"
  let ?a = "clamp (length w) (int (fst (hd ?N)) - 100)"
  let ?b = "clamp (length w) (int (snd (last ?N)) + 100)"
  from detect_nonsilent_wf [of w "quiet P (- 40)" 25]
  have all: "list_all (\<lambda>r. fst r \<le> snd r \<and> snd r \<le> length w) ?N"
    and suc: "successively (\<lambda>r r'. snd r + 25 \<le> fst r') ?N"
    by simp_all
  from all suc False have FL: "fst (hd ?N) \<le> snd (last ?N)"
    by (rule ranges_first_le_last)
  from all False have Ln: "snd (last ?N) \<le> length w"
    by (simp add: list_all_iff)
  have a: "?a = fst (hd ?N) - 100"
    using FL Ln unfolding clamp_def by linarith
  have b: "?b = min (length w) (snd (last ?N) + 100)"
    unfolding clamp_def by linarith
  have ab: "?a \<le> ?b"
    using FL Ln unfolding a b by linarith
  have bn: "?b \<le> length w"
    unfolding b by simp
  have "nat (max 0 (int (fst (hd ?N)) - 100)) = fst (hd ?N) - 100"
    by linarith
  then have "trim P w = slice w (fst (hd ?N) - 100) (min (length w) (snd (last ?N) + 100))"
    using False by (simp add: trim_def Let_def)
  also have "\<dots> = slice w ?a ?b"
    by (simp only: a b)
  also have "\<dots> = take (?b - ?a) (drop ?a w)"
    using ab bn by (rule slice_take_drop)
  finally have eq: "trim P w = take (?b - ?a) (drop ?a w)" .
  have len: "length (take (?b - ?a) (drop ?a w)) = ?b - ?a"
    using ab bn by simp
  from eq len ab False show ?thesis
    by (simp add: Let_def)
qed

text \<open>
  C9. Trimming is idempotent: the Trimmer applied to its own output returns that output.
\<close>

theorem trim_idempotent: "trim P (trim P w) = trim P w"
proof (cases "detect_nonsilent (quiet P (- 40)) 25 w = []")
  case True
  then have "trim P w = w" by (simp add: trim_def)
  then show ?thesis by simp
next
  case False
  let ?q = "quiet P (- 40)"
  let ?N = "detect_nonsilent ?q 25 w"
  define a where "a = fst (hd ?N) - 100"
  define b where "b = min (length w) (snd (last ?N) + 100)"
  have a': "nat (max 0 (int (fst (hd ?N)) - 100)) = a"
    by (simp add: a_def)
  have T: "trim P w = slice w a b"
    using False by (simp add: trim_def Let_def a' b_def)
  show ?thesis
  proof (cases "a \<le> b")
    case ab: False
    moreover have "b \<le> length w"
      by (simp add: b_def)
    ultimately have "slice w a b = []"
      by (simp add: slice_def Let_def min_def)
    moreover have "trim P [] = []"
      by (simp add: trim_def slice_def Let_def)
    ultimately show ?thesis using T by simp
  next
    case ab: True
    let ?T = "slice w a b"
    show ?thesis
    proof (cases "detect_nonsilent ?q 25 ?T = []")
      case True
      then have "trim P ?T = ?T" by (simp add: trim_def)
      with T show ?thesis by simp
    next
      case N': False
      have msl: "(25::nat) \<le> 100" by simp
      have 1: "fst (hd (detect_nonsilent ?q 25 ?T)) \<le> 100"
        using msl False a_def b_def ab N' by (rule trimmed_within_guard(1))
      have 2: "length ?T \<le> snd (last (detect_nonsilent ?q 25 ?T)) + 100"
        using msl False a_def b_def ab N' by (rule trimmed_within_guard(2))
      from 1 have s: "nat (max 0 (int (fst (hd (detect_nonsilent ?q 25 ?T))) - 100)) = 0"
        by simp
      from 2 have e: "min (length ?T) (snd (last (detect_nonsilent ?q 25 ?T)) + 100) = length ?T"
        by simp
      have "trim P ?T = slice ?T 0 (length ?T)"
        using N' by (simp add: trim_def Let_def s e)
      also have "\<dots> = ?T"
        by (rule slice_all) simp
      finally show ?thesis using T by simp
    qed
  qed
qed


section \<open>Segmenter\<close>

lemma two_spans_nonsilent:
  "detect_nonsilent (quiet demo (- 50)) 1000 two_spans = [(0, 1), (1001, 1002)]"
  unfolding two_spans_def demo_simps by code_simp

lemma two_spans_chunks:
  "split_on_silence (quiet demo (- 50)) 1000 150 two_spans
     = [[90] @ replicate 150 0, replicate 150 0 @ [90]]"
  by (simp add: split_on_silence_def two_spans_nonsilent output_ranges_def)
     (simp add: two_spans_def slice_def)

lemma lead_in_nonsilent:
  "detect_nonsilent (quiet demo (- 50)) 1000 lead_in = [(1000, 1001)]"
  unfolding lead_in_def demo_simps by code_simp

lemma lead_in_chunks:
  "split_on_silence (quiet demo (- 50)) 1000 150 lead_in = [replicate 150 0 @ [90]]"
  by (simp add: split_on_silence_def lead_in_nonsilent output_ranges_def)
     (simp add: lead_in_def slice_def)

text \<open>
  C3, as the claim states it, fails. With the transcript lines "Hello, World!" and "",
  two detected spans and the suffix X, the second name is 2--X.mp3: the empty second
  line is a line, so its label is the empty string, not the index 2.
\<close>

theorem empty_line_gives_empty_label:
  "map_sum id (map fst) (snd (cut_audio demo two_spans [''Hello, World!'', ''''] ''X''))
     = Inr [''1-HelloWorld-X.mp3'', ''2--X.mp3'']"
proof -
  have d: "decode demo ''mp3'' two_spans = Some two_spans"
    by (simp add: demo_simps two_spans_def)
  have n1: "chunk_name [''Hello, World!'', ''''] ''X'' 1 = ''1-HelloWorld-X.mp3''"
    by (simp add: chunk_name_def text_line_def str_nat.simps digit_char_def
          re_sub_nonword_def strip_def is_space_def is_word_def code_def)
  have n2: "chunk_name [''Hello, World!'', ''''] ''X'' 2 = ''2--X.mp3''"
    by (simp add: chunk_name_def text_line_def str_nat.simps digit_char_def
          re_sub_nonword_def strip_def)
  have u: "[1 ..< 3] = [1, 2::nat]"
    by (simp add: upt_rec)
  from n1 have n1': "chunk_name [''Hello, World!'', ''''] ''X'' (Suc 0) = ''1-HelloWorld-X.mp3''"
    by simp
  from n2 have n2': "chunk_name [''Hello, World!'', ''''] ''X'' (Suc (Suc 0)) = ''2--X.mp3''"
    by (simp add: numeral_2_eq_2)
  show ?thesis
    by (simp add: cut_audio_Some [OF d] two_spans_chunks u n1' n2')
qed

text \<open>
  C3, amended. When the recording decodes, chunk number \<open>i + 1\<close> of the archive is named
  from its number, its label and the suffix; the label is transcript line \<open>i\<close>
  (counted from 0) with every non-word character deleted when the transcript has such a
  line, also when that leaves nothing, and the decimal string of the number only when
  the transcript has no such line.
\<close>

theorem label_from_transcript_line:
  assumes "decode P ''mp3'' b = Some sound"
    and "i < length (split_on_silence (quiet P (- 50)) 1000 150 sound)"
  shows "\<exists>prog zf. cut_audio P b lines suffix = (prog, Inr zf)
           \<and> length zf = length (split_on_silence (quiet P (- 50)) 1000 150 sound)
           \<and> fst (zf ! i) =
               str_nat (i + 1) @ ''-'' @
               (if i < length lines then filter is_word (lines ! i) else str_nat (i + 1)) @
               ''-'' @ suffix @ ''.mp3''"
proof -
  let ?chunks = "split_on_silence (quiet P (- 50)) 1000 150 sound"
  let ?zf = "map (\<lambda>(j, c). (chunk_name lines suffix j, encode P ''mp3'' (padded P c)))
               (zip [1 ..< 1 + length ?chunks] ?chunks)"
  have upt: "length [1 ..< 1 + length ?chunks] = length ?chunks"
    by (simp del: upt_Suc)
  then have len: "length ?zf = length ?chunks"
    by (simp del: upt_Suc length_upt)
  have "i < length [1 ..< 1 + length ?chunks]"
    using assms(2) upt by simp
  then have "[1 ..< 1 + length ?chunks] ! i = 1 + i"
    by (simp only: nth_upt length_upt)
  then have "fst (?zf ! i) = chunk_name lines suffix (i + 1)"
    using assms(2) upt by (simp del: upt_Suc length_upt)
  then have "fst (?zf ! i) = str_nat (i + 1) @ ''-'' @
               (if i < length lines then filter is_word (lines ! i) else str_nat (i + 1)) @
               ''-'' @ suffix @ ''.mp3''"
    by (simp only: chunk_name_eq)
  with len cut_audio_Some [OF assms(1), of lines suffix] show ?thesis by blast
qed

theorem label_from_transcript_line_witness:
  "decode demo ''mp3'' two_spans = Some two_spans
   \<and> (1::nat) < length (split_on_silence (quiet demo (- 50)) 1000 150 two_spans)
   \<and> (\<exists>prog zf. cut_audio demo two_spans [''Hello, World!'', ''''] ''X'' = (prog, Inr zf)
         \<and> length zf = 2 \<and> fst (zf ! 1) = ''2--X.mp3'')"
proof -
  have d: "decode demo ''mp3'' two_spans = Some two_spans"
    by (simp add: demo_simps two_spans_def)
  have l: "(1::nat) < length (split_on_silence (quiet demo (- 50)) 1000 150 two_spans)"
    by (simp add: two_spans_chunks)
  from label_from_transcript_line [OF d l, of "[''Hello, World!'', '''']" "''X''"]
  show ?thesis
    using d l by (simp add: two_spans_chunks str_nat.simps digit_char_def numeral_2_eq_2)
qed

lemma meet_overlaps_id:
  "successively (\<lambda>r r'. snd r \<le> fst r') rs \<Longrightarrow> meet_overlaps rs = rs"
proof (induction rs rule: meet_overlaps.induct)
  case (1 s1 e1 s2 e2 rest)
  then have "\<not> s2 < e1" and "successively (\<lambda>r r'. snd r \<le> fst r') ((s2, e2) # rest)"
    by simp_all
  with "1.IH"(2) show ?case by simp
qed simp_all

text \<open>
  With a silence of at least twice what is kept, the widened ranges never overlap, and
  each chunk is its non-silent range widened by \<open>keep\<close> on both sides, cut off at the
  ends of the waveform.
\<close>

lemma split_on_silence_widened:
  assumes "2 * keep \<le> msl"
  shows "split_on_silence q msl keep w =
           map (\<lambda>r. slice w (fst r - keep) (snd r + keep)) (detect_nonsilent q msl w)"
proof -
  let ?N = "detect_nonsilent q msl w"
  let ?wide = "map (\<lambda>(start, stop). (int start - int keep, int stop + int keep)) ?N"
  have "successively (\<lambda>r r'. snd r + msl \<le> fst r') ?N"
    using detect_nonsilent_wf [of w q msl] by simp
  then have "successively (\<lambda>r r'. int (snd r) + int keep \<le> int (fst r') - int keep) ?N"
    by (rule successively_mono) (use assms in linarith)
  then have "successively (\<lambda>r r'. snd r \<le> fst r') ?wide"
    by (simp add: successively_map case_prod_beta)
  then have "output_ranges keep ?N = ?wide"
    unfolding output_ranges_def by (rule meet_overlaps_id)
  moreover have "\<And>s e. slice w (nat (max (int s - int keep) 0)) (nat (min (int e + int keep) (int (length w))))
      = slice w (s - keep) (e + keep)"
  proof -
    fix s e
    have "nat (max (int s - int keep) 0) = s - keep" by linarith
    moreover have "nat (min (int e + int keep) (int (length w))) = min (e + keep) (length w)"
      by linarith
    ultimately show "slice w (nat (max (int s - int keep) 0)) (nat (min (int e + int keep) (int (length w))))
      = slice w (s - keep) (e + keep)"
      by (simp add: slice_def)
  qed
  ultimately show ?thesis
    by (simp add: split_on_silence_def case_prod_beta comp_def)
qed

lemma slice_length_min: "length (slice w a b) = min b (length w) - min a (length w)"
proof -
  have "min (min b (length w) - min a (length w)) (length w - min a (length w))
      = min b (length w) - min a (length w)"
    by linarith
  then show ?thesis
    by (simp add: slice_def Let_def)
qed

lemma widened_length:
  assumes "s \<le> e" "e \<le> length w"
  shows "e - s \<le> length (slice w (s - keep) (e + keep))"
    and "length (slice w (s - keep) (e + keep)) \<le> e - s + 2 * keep"
  using assms unfolding slice_length_min by linarith+

lemma padded_length: "length (padded P chunk) = length chunk + 300"
  by (simp add: padded_def silent_def Let_def)

text \<open>
  C4, amended. When the recording decodes, with \<open>N\<close> the non-silent ranges found at the
  Segmenter's thresholds: the archive has one entry for each range, in the order of the
  ranges, which is chronological, two ranges in succession being at least 1000 ms apart;
  entry \<open>i\<close> is named with \<open>i + 1\<close> and holds the encoding of a chunk padded with 150 ms of
  silence on both sides, which makes it 300 ms longer than the chunk; and the chunk is
  not the bare range but the range widened by 150 ms of the recording on both sides, cut
  off at the ends of the recording, so its duration lies between that of the range and
  300 ms more.
\<close>

theorem segmenter_chunks:
  assumes "decode P ''mp3'' b = Some sound"
  shows "\<exists>prog zf.
           cut_audio P b lines suffix = (prog, Inr zf)
           \<and> length zf = length (detect_nonsilent (quiet P (- 50)) 1000 sound)
           \<and> successively (\<lambda>r r'. snd r + 1000 \<le> fst r')
               (detect_nonsilent (quiet P (- 50)) 1000 sound)
           \<and> map fst zf = map (chunk_name lines suffix)
                             [1 ..< 1 + length (detect_nonsilent (quiet P (- 50)) 1000 sound)]
           \<and> list_all2
               (\<lambda>entry r.
                  snd entry = encode P ''mp3''
                    (silent (silence P) 150 @ slice sound (fst r - 150) (snd r + 150)
                       @ silent (silence P) 150)
                  \<and> length (silent (silence P) 150 @ slice sound (fst r - 150) (snd r + 150)
                       @ silent (silence P) 150)
                      = length (slice sound (fst r - 150) (snd r + 150)) + 300
                  \<and> snd r - fst r \<le> length (slice sound (fst r - 150) (snd r + 150))
                  \<and> length (slice sound (fst r - 150) (snd r + 150)) \<le> snd r - fst r + 300)
               zf (detect_nonsilent (quiet P (- 50)) 1000 sound)"
proof -
  let ?N = "detect_nonsilent (quiet P (- 50)) 1000 sound"
  let ?chunk = "\<lambda>r. slice sound (fst r - 150) (snd r + 150)"
  let ?chunks = "split_on_silence (quiet P (- 50)) 1000 150 sound"
  let ?zf = "map (\<lambda>(j, c). (chunk_name lines suffix j, encode P ''mp3'' (padded P c)))
               (zip [1 ..< 1 + length ?chunks] ?chunks)"
  have chunks: "?chunks = map ?chunk ?N"
    by (rule split_on_silence_widened) simp
  then have n: "length ?chunks = length ?N" by simp
  have upt: "length [1 ..< 1 + length ?N] = length ?N"
    by (simp del: upt_Suc)
  have wf: "list_all (\<lambda>r. fst r \<le> snd r \<and> snd r \<le> length sound) ?N"
    and suc: "successively (\<lambda>r r'. snd r + 1000 \<le> fst r') ?N"
    using detect_nonsilent_wf [of sound "quiet P (- 50)" 1000] by simp_all
  have len: "length ?zf = length ?N"
    using n upt by (simp del: upt_Suc length_upt)
  have names: "map fst ?zf = map (chunk_name lines suffix) [1 ..< 1 + length ?N]"
  proof -
    have "map fst ?zf = map (\<lambda>x. chunk_name lines suffix (fst x)) (zip [1 ..< 1 + length ?chunks] ?chunks)"
      by (simp add: case_prod_beta del: upt_Suc)
    also have "\<dots> = map (chunk_name lines suffix) (map fst (zip [1 ..< 1 + length ?chunks] ?chunks))"
      by (simp only: map_map comp_def)
    also have "map fst (zip [1 ..< 1 + length ?chunks] ?chunks) = [1 ..< 1 + length ?chunks]"
      by (rule map_fst_zip) (simp del: upt_Suc)
    finally show ?thesis by (simp only: n)
  qed
  have datas: "map snd ?zf = map (\<lambda>r. encode P ''mp3'' (padded P (?chunk r))) ?N"
  proof -
    have "map snd ?zf = map (\<lambda>x. encode P ''mp3'' (padded P (snd x)))
                          (zip [1 ..< 1 + length ?chunks] ?chunks)"
      by (simp add: case_prod_beta del: upt_Suc)
    also have "\<dots> = map (\<lambda>c. encode P ''mp3'' (padded P c))
                          (map snd (zip [1 ..< 1 + length ?chunks] ?chunks))"
      by (simp only: map_map comp_def)
    also have "map snd (zip [1 ..< 1 + length ?chunks] ?chunks) = ?chunks"
      by (rule map_snd_zip) (simp del: upt_Suc)
    finally show ?thesis by (simp add: chunks comp_def)
  qed
  have rel: "list_all2
               (\<lambda>entry r.
                  snd entry = encode P ''mp3''
                    (silent (silence P) 150 @ ?chunk r @ silent (silence P) 150)
                  \<and> length (silent (silence P) 150 @ ?chunk r @ silent (silence P) 150)
                      = length (?chunk r) + 300
                  \<and> snd r - fst r \<le> length (?chunk r)
                  \<and> length (?chunk r) \<le> snd r - fst r + 300)
               ?zf ?N"
  proof (rule list_all2_all_nthI [OF len])
    fix i assume "i < length ?zf"
    with len have i: "i < length ?N" by simp
    then have r: "fst (?N ! i) \<le> snd (?N ! i)" "snd (?N ! i) \<le> length sound"
      using wf by (simp_all add: list_all_length)
    have "snd (?zf ! i) = map snd ?zf ! i"
      using \<open>i < length ?zf\<close> by (simp only: nth_map)
    also have "\<dots> = encode P ''mp3'' (padded P (?chunk (?N ! i)))"
      using i by (simp only: datas nth_map)
    finally have "snd (?zf ! i) = encode P ''mp3''
        (silent (silence P) 150 @ ?chunk (?N ! i) @ silent (silence P) 150)"
      by (simp add: padded_def Let_def)
    moreover have "length (silent (silence P) 150 @ ?chunk (?N ! i) @ silent (silence P) 150)
        = length (?chunk (?N ! i)) + 300"
      by (simp add: silent_def)
    moreover have "snd (?N ! i) - fst (?N ! i) \<le> length (?chunk (?N ! i))"
      using r by (rule widened_length(1))
    moreover have "length (?chunk (?N ! i)) \<le> snd (?N ! i) - fst (?N ! i) + 300"
      using widened_length(2) [OF r, of 150] by simp
    ultimately show "snd (?zf ! i) = encode P ''mp3''
          (silent (silence P) 150 @ ?chunk (?N ! i) @ silent (silence P) 150)
        \<and> length (silent (silence P) 150 @ ?chunk (?N ! i) @ silent (silence P) 150)
            = length (?chunk (?N ! i)) + 300
        \<and> snd (?N ! i) - fst (?N ! i) \<le> length (?chunk (?N ! i))
        \<and> length (?chunk (?N ! i)) \<le> snd (?N ! i) - fst (?N ! i) + 300"
      by blast
  qed
  from cut_audio_Some [OF assms, of lines suffix] len suc names rel
  show ?thesis by blast
qed

theorem segmenter_chunks_witness:
  "decode demo ''mp3'' lead_in = Some lead_in
   \<and> detect_nonsilent (quiet demo (- 50)) 1000 lead_in = [(1000, 1001)]
   \<and> (\<exists>prog zf. cut_audio demo lead_in [] ''X'' = (prog, Inr zf)
         \<and> length zf = 1
         \<and> map fst zf = [''1-1-X.mp3'']
         \<and> map (\<lambda>entry. length (snd entry)) zf = [451])"
proof -
  have d: "decode demo ''mp3'' lead_in = Some lead_in"
    by (simp add: demo_simps lead_in_def)
  have sl: "slice lead_in 850 1151 = replicate 150 0 @ [90]"
    by (simp add: slice_def lead_in_def)
  have nm: "chunk_name [] ''X'' (Suc 0) = ''1-1-X.mp3''"
    by (simp add: chunk_name_def text_line_def str_nat.simps digit_char_def)
  from segmenter_chunks [OF d, of "[]" "''X''"]
  obtain prog zf where c: "cut_audio demo lead_in [] ''X'' = (prog, Inr zf)"
    and l: "length zf = 1"
    and n: "map fst zf = map (chunk_name [] ''X'') [1 ..< 1 + 1]"
    and r: "list_all2
               (\<lambda>entry r.
                  snd entry = encode demo ''mp3''
                    (silent (silence demo) 150 @ slice lead_in (fst r - 150) (snd r + 150)
                       @ silent (silence demo) 150)
                  \<and> length (silent (silence demo) 150 @ slice lead_in (fst r - 150) (snd r + 150)
                       @ silent (silence demo) 150)
                      = length (slice lead_in (fst r - 150) (snd r + 150)) + 300
                  \<and> snd r - fst r \<le> length (slice lead_in (fst r - 150) (snd r + 150))
                  \<and> length (slice lead_in (fst r - 150) (snd r + 150)) \<le> snd r - fst r + 300)
               zf [(1000, 1001)]"
    unfolding lead_in_nonsilent by auto
  from l obtain z where z: "zf = [z]"
    by (cases zf) auto
  from r z have "snd z = encode demo ''mp3''
      (silent (silence demo) 150 @ slice lead_in (1000 - 150) (1001 + 150) @ silent (silence demo) 150)"
    by simp
  then have "length (snd z) = 451"
    by (simp add: sl demo_simps silent_def)
  with c l n z d lead_in_nonsilent nm show ?thesis
    by simp
qed

text \<open>
  C4, as the claim states it, fails. In a recording of 1000 ms of silence and then one
  loud millisecond the only non-silent range is that millisecond, from 1000 to 1001; the
  chunk made from it lasts 451 ms, which is 450 ms more than the range, not 300: the
  splitter keeps 150 ms of the recording before the range (nothing is left after it),
  and the two pads add 300 ms.
\<close>

theorem kept_audio_lengthens_chunk:
  "detect_nonsilent (quiet demo (- 50)) 1000 lead_in = [(1000, 1001)]
   \<and> map_sum id (map (\<lambda>entry. length (snd entry))) (snd (cut_audio demo lead_in [] ''X''))
       = Inr [451]"
proof -
  have d: "decode demo ''mp3'' lead_in = Some lead_in"
    by (simp add: demo_simps lead_in_def)
  have u: "[Suc 0 ..< Suc (Suc 0)] = [Suc 0]"
    by simp
  have "snd (cut_audio demo lead_in [] ''X'')
      = Inr [(chunk_name [] ''X'' (Suc 0), encode demo ''mp3'' (padded demo (replicate 150 0 @ [90])))]"
    by (simp add: cut_audio_Some [OF d] lead_in_chunks)
  then show ?thesis
    by (simp add: lead_in_nonsilent padded_length demo_simps)
qed

end
